theory Spec2Isabelle
  imports Complex_Main "HOL-Library.AList" "HOL-Library.Product_Lexorder" "HOL-Library.Multiset"
begin

section \<open>Equivalence classes and UMI connectivity (count.py)\<close>

text \<open>
  An equivalence class is the Python tuple \<^verbatim>\<open>(UMI, TE, count) : (str, set, int)\<close>.
  The UMI is a byte string, the features are a set of 1-based feature indexes and the
  read count is a Python integer (unbounded, so \<open>int\<close>).
\<close>

type_synonym feature = nat
type_synonym node = nat
type_synonym eqclass = "string \<times> feature set \<times> int"

definition ec_umi :: "eqclass \<Rightarrow> string" where
  "ec_umi x = fst x"

definition ec_ft :: "eqclass \<Rightarrow> feature set" where
  "ec_ft x = fst (snd x)"

definition ec_count :: "eqclass \<Rightarrow> int" where
  "ec_count x = snd (snd x)"

text \<open>
  \<^verbatim>\<open>sum(1 for i, j in zip(x[0], y[0]) if i != j)\<close>: \<open>zip\<close> stops at the shorter
  of the two strings, as Python's does.
\<close>

definition mismatches :: "string \<Rightarrow> string \<Rightarrow> int" where
  "mismatches a b = sum_list [1. (i, j) \<leftarrow> zip a b, i \<noteq> j]"

text \<open>
  \<^verbatim>\<open>connect_umis(x, y, threshold=1)\<close>. The Python value is used only for its truth
  value: the middle operand is a set, which is true exactly when it is not empty.
\<close>

definition connect_umis :: "eqclass \<Rightarrow> eqclass \<Rightarrow> int \<Rightarrow> bool" where
  "connect_umis x y threshold =
     (ec_count x \<ge> (2 * ec_count y) - 1
      \<and> ec_ft x \<inter> ec_ft y \<noteq> {}
      \<and> mismatches (ec_umi x) (ec_umi y) \<le> threshold)"

text \<open>
  The Hamming distance as the specification words it: the number of positions, among
  those where both strings are defined, at which they differ.
\<close>

definition hamming :: "string \<Rightarrow> string \<Rightarrow> nat" where
  "hamming a b = card {k. k < length a \<and> k < length b \<and> a ! k \<noteq> b ! k}"

section \<open>The deduplication graph\<close>

text \<open>
  A networkx \<open>DiGraph\<close> keeps its nodes and, per node, its successors in insertion
  order. The model keeps the node dictionary as an association list and the edges as
  one list in insertion order; the successors of a node are read off it in that order.
  A node carries the attribute dictionary \<^verbatim>\<open>{'ft': j[1], 'c': j[2]}\<close>.
\<close>

record payload =
  ft :: "feature set"
  c :: int

record digraph =
  gnodes :: "(node \<times> payload) list"
  gedges :: "(node \<times> node) list"

definition node_ids :: "digraph \<Rightarrow> node list" where
  "node_ids g = map fst (gnodes g)"

definition successors :: "digraph \<Rightarrow> node \<Rightarrow> node list" where
  "successors g n = [v. (u, v) \<leftarrow> gedges g, u = n]"

definition predecessors :: "digraph \<Rightarrow> node \<Rightarrow> node list" where
  "predecessors g n = [u. (u, v) \<leftarrow> gedges g, v = n]"

text \<open>
  \<^verbatim>\<open>graph.nodes[n]['ft']\<close>. Every node the program looks up is a node of the graph
  (networkx keeps the end points of every edge among the nodes); the empty set stands
  for the lookup of a node that is not there, which the theorems below exclude by
  \<open>wf_digraph\<close>.
\<close>

definition node_ft :: "digraph \<Rightarrow> node \<Rightarrow> feature set" where
  "node_ft g n = (case map_of (gnodes g) n of Some p \<Rightarrow> ft p | None \<Rightarrow> {})"

definition wf_digraph :: "digraph \<Rightarrow> bool" where
  "wf_digraph g =
     (distinct (node_ids g)
      \<and> list_all (\<lambda>(u, v). u \<in> set (node_ids g) \<and> v \<in> set (node_ids g)) (gedges g))"

text \<open>
  \<^verbatim>\<open>permutations(enumerate(equivalence_classes), 2)\<close>: all ordered pairs of entries at
  two different positions, in lexicographic order of the positions.
\<close>

definition permutations2 :: "'a list \<Rightarrow> ('a \<times> 'a) list" where
  "permutations2 xs =
     [(xs ! i, xs ! j). i \<leftarrow> [0..<length xs], j \<leftarrow> [0..<length xs], i \<noteq> j]"

definition build_graph :: "eqclass list \<Rightarrow> digraph" where
  "build_graph equivalence_classes =
     \<lparr>gnodes = [(i, \<lparr>ft = ec_ft j, c = ec_count j\<rparr>). (i, j) \<leftarrow> enumerate 0 equivalence_classes],
      gedges = [(fst x, fst y). (x, y) \<leftarrow> permutations2 (enumerate 0 equivalence_classes),
                  connect_umis (snd x) (snd y) 1]\<rparr>"

section \<open>Path finding\<close>

text \<open>
  \<^verbatim>\<open>pathfinder(graph, node, path=[], features=None)\<close>. The list \<open>path\<close> is
  extended in place (\<^verbatim>\<open>path += [node]\<close>), so the recursive calls and the caller
  share one list: the model threads it through. \<^verbatim>\<open>not features\<close> is true for
  \<open>None\<close> and for the empty set. \<open>pathfinder_loop\<close> is the \<open>for\<close> loop over
  \<^verbatim>\<open>graph.successors(node)\<close>, with the successors still to visit.
\<close>

function pathfinder :: "digraph \<Rightarrow> node \<Rightarrow> node list \<Rightarrow> feature set option \<Rightarrow> node list"
  and pathfinder_loop :: "digraph \<Rightarrow> feature set \<Rightarrow> node list \<Rightarrow> node list \<Rightarrow> node list"
where
  "pathfinder graph node path features =
     (let features' = (case features of
                         None \<Rightarrow> node_ft graph node
                       | Some fs \<Rightarrow> if fs = {} then node_ft graph node else fs)
      in pathfinder_loop graph features' (successors graph node) (path @ [node]))"
| "pathfinder_loop graph features [] path = path"
| "pathfinder_loop graph features (next_node # rest) path =
     (if features \<inter> node_ft graph next_node \<noteq> {} \<and> next_node \<notin> set path
      then pathfinder_loop graph features rest
             (pathfinder graph next_node path (Some features))
      else pathfinder_loop graph features rest path)"
  by pat_completeness auto

definition targets :: "digraph \<Rightarrow> node set" where
  "targets g = snd ` set (gedges g)"

lemma successors_targets: "set (successors g n) \<subseteq> targets g"
  by (force simp: successors_def targets_def)

lemma pathfinder_grows_dom:
  "pathfinder_pathfinder_loop_dom (Inl (g, n, p, fs)) \<Longrightarrow> set p \<subseteq> set (pathfinder g n p fs)"
  "pathfinder_pathfinder_loop_dom (Inr (g, a, todo, p)) \<Longrightarrow>
     set p \<subseteq> set (pathfinder_loop g a todo p)"
proof (induction g n p fs and g a todo p rule: pathfinder_pathfinder_loop.pinduct)
  case (1 graph node path features)
  then show ?case by (auto simp: pathfinder.psimps Let_def split: option.splits)
next
  case (2 graph features path)
  then show ?case by (simp add: pathfinder_loop.psimps)
next
  case (3 graph features next_node rest path)
  then show ?case by (auto simp: pathfinder_loop.psimps)
qed

text \<open>
  The walk terminates: every recursive call either puts a new node on the path or
  consumes a successor, and the nodes it can reach are the end points of the edges.
\<close>

termination pathfinder
proof (relation "measures
   [\<lambda>x. case x of Inl (g, n, p, fs) \<Rightarrow> card (targets g - set p - {n})
              | Inr (g, a, todo, p) \<Rightarrow> card ((targets g \<union> set todo) - set p),
    \<lambda>x. case x of Inl _ \<Rightarrow> 1 | Inr _ \<Rightarrow> 0,
    \<lambda>x. case x of Inl _ \<Rightarrow> 0 | Inr (g, a, todo, p) \<Rightarrow> length todo]", goal_cases)
  case 1
  then show ?case by simp
next
  case (2 graph node path features x)
  have "(targets graph \<union> set (successors graph node)) - set (path @ [node])
      = targets graph - set path - {node}"
    using successors_targets [of graph node] by auto
  then show ?case by simp
next
  case (3 graph features next_node rest path)
  have "targets graph - set path - {next_node}
      \<subset> (targets graph \<union> set (next_node # rest)) - set path"
    using 3 by auto
  moreover have "finite ((targets graph \<union> set (next_node # rest)) - set path)"
    by (simp add: targets_def)
  ultimately have "card (targets graph - set path - {next_node})
      < card ((targets graph \<union> set (next_node # rest)) - set path)"
    by (rule psubset_card_mono [rotated])
  then show ?case by simp
next
  case (4 graph features next_node rest path)
  have "(targets graph \<union> set rest) - set (pathfinder graph next_node path (Some features))
      \<subseteq> (targets graph \<union> set (next_node # rest)) - set path"
    using pathfinder_grows_dom(1) [OF 4(2)] by auto
  moreover have "finite ((targets graph \<union> set (next_node # rest)) - set path)"
    by (simp add: targets_def)
  ultimately have
    "card ((targets graph \<union> set rest) - set (pathfinder graph next_node path (Some features)))
      \<le> card ((targets graph \<union> set (next_node # rest)) - set path)"
    by (rule card_mono [rotated])
  then show ?case by auto
next
  case (5 graph features next_node rest path)
  have "(targets graph \<union> set rest) - set path
      \<subseteq> (targets graph \<union> set (next_node # rest)) - set path"
    by auto
  moreover have "finite ((targets graph \<union> set (next_node # rest)) - set path)"
    by (simp add: targets_def)
  ultimately have "card ((targets graph \<union> set rest) - set path)
      \<le> card ((targets graph \<union> set (next_node # rest)) - set path)"
    by (rule card_mono [rotated])
  then show ?case by auto
qed

text \<open>
  The feature set a walk tests its successors against: the one passed in, unless that
  is \<open>None\<close> or empty, when it is the feature set of the node.
\<close>

definition anchor_of :: "digraph \<Rightarrow> node \<Rightarrow> feature set option \<Rightarrow> feature set" where
  "anchor_of g n fs =
     (case fs of None \<Rightarrow> node_ft g n | Some s \<Rightarrow> if s = {} then node_ft g n else s)"

text \<open>
  The edges of the graph into a node whose feature set meets the feature set \<open>a\<close>.
\<close>

definition anchored_edges :: "digraph \<Rightarrow> feature set \<Rightarrow> (node \<times> node) set" where
  "anchored_edges g a = {(u, v). (u, v) \<in> set (gedges g) \<and> a \<inter> node_ft g v \<noteq> {}}"

section \<open>Path configurations of a subgraph\<close>

text \<open>
  \<^verbatim>\<open>subg_copy.remove_node(x)\<close> drops the node and every edge that touches it.
  (networkx raises for a node that is not in the graph; the nodes removed here are the
  nodes of a path just found in that graph, each once.)
\<close>

definition remove_node :: "digraph \<Rightarrow> node \<Rightarrow> digraph" where
  "remove_node g x =
     \<lparr>gnodes = [(n, p) \<leftarrow> gnodes g. n \<noteq> x],
      gedges = [(u, v) \<leftarrow> gedges g. u \<noteq> x \<and> v \<noteq> x]\<rparr>"

text \<open>
  The loop \<^verbatim>\<open>for node in nodes\<close> of \<open>compute_cell_counts\<close> for one parent:
  the working copy of the subgraph, the nodes still to look at, the blacklist and the
  paths found so far (\<^verbatim>\<open>paths[parent]\<close>).
\<close>

fun find_paths :: "digraph \<Rightarrow> node list \<Rightarrow> node list \<Rightarrow> node list list \<Rightarrow> node list list" where
  "find_paths subg_copy [] blacklist found = found"
| "find_paths subg_copy (node # nodes) blacklist found =
     (if node \<notin> set blacklist
      then (let path = pathfinder subg_copy node [] None
            in find_paths (fold (\<lambda>x g. remove_node g x) path subg_copy) nodes
                 (blacklist @ path) (found @ [path]))
      else find_paths subg_copy nodes blacklist found)"

definition parent_paths :: "digraph \<Rightarrow> node \<Rightarrow> node list list" where
  "parent_paths subg parent =
     find_paths subg ([parent] @ [x. x \<leftarrow> node_ids subg, x \<noteq> parent]) [] []"

text \<open>\<^verbatim>\<open>parents = [x for x in subg if not list(subg.predecessors(x))]\<close>\<close>

definition find_parents :: "digraph \<Rightarrow> node list" where
  "find_parents subg = [x. x \<leftarrow> node_ids subg, predecessors subg x = []]"

text \<open>
  The parents used for path finding: all nodes when no node is free of incoming edges.
\<close>

definition effective_parents :: "digraph \<Rightarrow> node list" where
  "effective_parents subg =
     (if find_parents subg = [] then node_ids subg else find_parents subg)"

text \<open>
  \<^verbatim>\<open>features = [list(set.union(*[subg.nodes[x]['ft'] for x in subg]))]\<close> in the branch
  without parents, \<open>None\<close> otherwise. A Python set has no order of its own; the list
  made of it is modelled as the sorted list, and the program uses only its length, its
  only element when it has one, and membership in it.
\<close>

definition union_features :: "digraph \<Rightarrow> feature set" where
  "union_features subg = foldr (\<union>) [node_ft subg x. x \<leftarrow> node_ids subg] {}"

definition initial_features :: "digraph \<Rightarrow> feature list list option" where
  "initial_features subg =
     (if find_parents subg = [] then Some [sorted_list_of_set (union_features subg)]
      else None)"

text \<open>
  The dictionary \<open>paths\<close>, in the insertion order of its keys, the parents (nodes
  of a graph, so no two of them are equal).
\<close>

definition all_paths :: "digraph \<Rightarrow> (node \<times> node list list) list" where
  "all_paths subg = [(parent, parent_paths subg parent). parent \<leftarrow> effective_parents subg]"

datatype error = KeyError string | ValueError | IndexError | FatalError string

text \<open>
  \<^verbatim>\<open>[paths[k] for k, v in paths.items()
     if len(v) == min([len(x) for x in paths.values()])][0]\<close>:
  \<open>min\<close> of an empty list raises, and so does \<open>[0]\<close> on an empty list.
\<close>

definition select_config :: "(node \<times> node list list) list \<Rightarrow> error + node list list" where
  "select_config paths =
     (if paths = [] then Inl ValueError
      else (case [v. (k, v) \<leftarrow> paths, length v = min_list [length x. (k', x) \<leftarrow> paths]] of
              [] \<Rightarrow> Inl IndexError
            | v # _ \<Rightarrow> Inr v))"

text \<open>
  The features of the selected paths: those of the first node of each path, or the
  one list of the branch without parents, repeated once per path. A path is never
  empty (it starts with the node the walk started from); \<open>x[0]\<close> of an empty one
  would raise.
\<close>

definition path_features :: "digraph \<Rightarrow> feature list list option \<Rightarrow> node list list
    \<Rightarrow> error + feature list list" where
  "path_features subg features path_config =
     (case features of
        None \<Rightarrow>
          (if list_ex (\<lambda>x. x = []) path_config then Inl IndexError
           else Inr [sorted_list_of_set (node_ft subg (hd x)). x \<leftarrow> path_config])
      | Some fs \<Rightarrow>
          (if fs = [] then
             (if list_ex (\<lambda>x. x = []) path_config then Inl IndexError
              else Inr [sorted_list_of_set (node_ft subg (hd x)). x \<leftarrow> path_config])
           else Inr (concat (replicate (length path_config) fs))))"

text \<open>
  One subgraph up to the assignment of counts: the selected path configuration and
  the feature list of each of its paths.
\<close>

definition solve_subgraph :: "digraph \<Rightarrow> error + (node list list \<times> feature list list)" where
  "solve_subgraph subg =
     (case select_config (all_paths subg) of
        Inl e \<Rightarrow> Inl e
      | Inr path_config \<Rightarrow>
          (case path_features subg (initial_features subg) path_config of
             Inl e \<Rightarrow> Inl e
           | Inr features \<Rightarrow> Inr (path_config, features)))"

section \<open>Assigning counts\<close>

text \<open>
  \<open>counts\<close> is a \<open>Counter\<close>: a dictionary in insertion order whose missing keys
  read as zero. The counts are Python floats; the model computes with real numbers
  (the only values the graph part produces are whole numbers).
\<close>

definition counter_get :: "(feature \<times> real) list \<Rightarrow> feature \<Rightarrow> real" where
  "counter_get cs k = (case map_of cs k of None \<Rightarrow> 0 | Some v \<Rightarrow> v)"

definition counter_add :: "(feature \<times> real) list \<Rightarrow> feature \<Rightarrow> real \<Rightarrow> (feature \<times> real) list" where
  "counter_add cs k v = AList.update k (counter_get cs k + v) cs"

record cell_state =
  counts :: "(feature \<times> real) list"
  em_array :: "nat list list"

text \<open>The value of a node attribute.\<close>

datatype attr = AttrSet "feature set" | AttrInt int

text \<open>What \<open>writerr\<close> is given, one entry per call.\<close>

datatype logval =
    LogAdjacency "(node \<times> node list) list"
  | LogFeatureSets "feature set list"
  | LogReadCounts "attr list"
  | LogPathConfig "node list list"
  | LogPath "node list"
  | LogFeatures "feature list list"
  | LogFeats "feature list"

text \<open>
  \<^verbatim>\<open>subg.nodes[x][key]\<close> on the attribute dictionary \<^verbatim>\<open>{'ft': ..., 'c': ...}\<close>
  that \<open>compute_cell_counts\<close> gives every node.
\<close>

definition node_attr :: "payload \<Rightarrow> string \<Rightarrow> error + attr" where
  "node_attr p key =
     (if key = ''ft'' then Inr (AttrSet (ft p))
      else if key = ''c'' then Inr (AttrInt (c p))
      else Inl (KeyError key))"

text \<open>\<^verbatim>\<open>[subg.nodes[x][key] for x in subg.nodes]\<close>: the first missing key raises.\<close>

fun read_attrs :: "(node \<times> payload) list \<Rightarrow> string \<Rightarrow> error + attr list" where
  "read_attrs [] key = Inr []"
| "read_attrs ((n, p) # rest) key =
     (case node_attr p key of
        Inl e \<Rightarrow> Inl e
      | Inr v \<Rightarrow> (case read_attrs rest key of Inl e \<Rightarrow> Inl e | Inr vs \<Rightarrow> Inr (v # vs)))"

text \<open>
  Modelled from the spec: \<open>writerr\<close> (module \<open>irescue.misc\<close>, not among the sources)
  writes its argument to the error stream, and with \<^verbatim>\<open>error=True\<close> it reports a
  fatal error and stops the program.

  The branch of \<open>compute_cell_counts\<close> for a path with no feature: the calls of
  \<open>writerr\<close> in the order of the source, up to the exception that ends them. The
  result is that exception and what was written before it.
\<close>

definition no_common_features :: "digraph \<Rightarrow> node list list \<Rightarrow> node list \<Rightarrow> feature list list
    \<Rightarrow> feature list \<Rightarrow> error \<times> logval list" where
  "no_common_features subg path_config path features feats =
     (let written = [LogAdjacency [(x, successors subg x). x \<leftarrow> node_ids subg],
                     LogFeatureSets [node_ft subg x. x \<leftarrow> node_ids subg]]
      in (case read_attrs (gnodes subg) ''count'' of
            Inl e \<Rightarrow> (e, written)
          | Inr cs \<Rightarrow>
              (FatalError ''Error: no common features detected in subgraph's path.'',
               written @ [LogReadCounts cs, LogPathConfig path_config, LogPath path,
                          LogFeatures features, LogFeats feats])))"

text \<open>
  \<^verbatim>\<open>for feats in features\<close>: one count for a single feature, one row of the EM
  array for several, the error branch for none. \<open>report\<close> is the error branch with
  the subgraph's data filled in.
\<close>

fun assign_counts :: "nat \<Rightarrow> (feature list \<Rightarrow> error \<times> logval list) \<Rightarrow> feature list list
    \<Rightarrow> cell_state \<Rightarrow> (error \<times> logval list) + cell_state" where
  "assign_counts number_of_features report [] st = Inr st"
| "assign_counts number_of_features report (feats # rest) st =
     (if length feats = 1
      then assign_counts number_of_features report rest
             (st\<lparr>counts := counter_add (counts st) (feats ! 0) 1\<rparr>)
      else if length feats > 1
      then assign_counts number_of_features report rest
             (st\<lparr>em_array := em_array st
                  @ [[if x \<in> set feats then 1 else 0. x \<leftarrow> [1..<number_of_features + 1]]]\<rparr>)
      else Inl (report feats))"

text \<open>
  The variable \<open>path\<close> that the error branch writes is the last path found for the
  last parent. (The branch is reached only after a configuration was selected, when
  there is a parent and every parent has a path.)
\<close>

definition last_path :: "digraph \<Rightarrow> node list" where
  "last_path subg = last (snd (last (all_paths subg)))"

definition process_subgraph :: "nat \<Rightarrow> digraph \<Rightarrow> cell_state \<Rightarrow> (error \<times> logval list) + cell_state" where
  "process_subgraph number_of_features subg st =
     (case solve_subgraph subg of
        Inl e \<Rightarrow> Inl (e, [])
      | Inr (path_config, features) \<Rightarrow>
          assign_counts number_of_features
            (no_common_features subg path_config (last_path subg) features) features st)"

fun process_subgraphs :: "nat \<Rightarrow> digraph list \<Rightarrow> cell_state \<Rightarrow> (error \<times> logval list) + cell_state" where
  "process_subgraphs number_of_features [] st = Inr st"
| "process_subgraphs number_of_features (subg # rest) st =
     (case process_subgraph number_of_features subg st of
        Inl e \<Rightarrow> Inl e
      | Inr st' \<Rightarrow> process_subgraphs number_of_features rest st')"

section \<open>Connected components (networkx)\<close>

text \<open>
  \<^verbatim>\<open>nx.connected_components(graph.to_undirected())\<close> and \<^verbatim>\<open>graph.subgraph(x)\<close>
  are library calls. The components come in the order of their first node; a
  subgraph keeps the nodes of the component, their attributes and the edges between
  them.

  networkx lists the nodes of a subgraph in the order of the graph, unless the
  component holds fewer than half of the nodes of the graph: then it lists them in the
  order in which Python iterates the set of the component's nodes. That order is the
  parameter \<open>set_order\<close> (a set of Python has no order one could compute from its
  elements alone). The successors of a node keep the order of the graph.
\<close>

definition adjacent :: "digraph \<Rightarrow> node \<Rightarrow> node \<Rightarrow> bool" where
  "adjacent g u v = ((u, v) \<in> set (gedges g) \<or> (v, u) \<in> set (gedges g))"

definition grow :: "digraph \<Rightarrow> node list \<Rightarrow> node list" where
  "grow g seen = [v \<leftarrow> node_ids g. v \<in> set seen \<or> list_ex (\<lambda>u. adjacent g u v) seen]"

definition component :: "digraph \<Rightarrow> node \<Rightarrow> node list" where
  "component g v = (grow g ^^ length (node_ids g)) [v]"

fun components_from :: "digraph \<Rightarrow> node list \<Rightarrow> node list \<Rightarrow> node list list" where
  "components_from g [] seen = []"
| "components_from g (v # vs) seen =
     (if v \<in> set seen then components_from g vs seen
      else component g v # components_from g vs (seen @ component g v))"

definition connected_components :: "digraph \<Rightarrow> node list list" where
  "connected_components g = components_from g (node_ids g) []"

definition subgraph :: "(node list \<Rightarrow> node list) \<Rightarrow> digraph \<Rightarrow> node list \<Rightarrow> digraph" where
  "subgraph set_order g ns =
     \<lparr>gnodes = (if 2 * length (remdups ns) < length (gnodes g)
                then [(n, p). n \<leftarrow> set_order ns, (n', p) \<leftarrow> gnodes g, n' = n]
                else [(n, p) \<leftarrow> gnodes g. n \<in> set ns]),
      gedges = [(u, v) \<leftarrow> gedges g. u \<in> set ns \<and> v \<in> set ns]\<rparr>"

definition subgraphs :: "(node list \<Rightarrow> node list) \<Rightarrow> digraph \<Rightarrow> digraph list" where
  "subgraphs set_order g = [subgraph set_order g x. x \<leftarrow> connected_components g]"

text \<open>
  What is known of the order of a Python set: it lists every element once.
\<close>

definition lists_each_once :: "(node list \<Rightarrow> node list) \<Rightarrow> bool" where
  "lists_each_once set_order =
     (\<forall>ns. distinct (set_order ns) \<and> set (set_order ns) = set ns)"

section \<open>Counts of one cell\<close>

text \<open>
  \<open>compute_cell_counts\<close> up to the EM step: the counts assigned directly and the
  rows put aside for EM. (The model covers the counts; the optional dump of the
  equivalence classes does not enter them.)
\<close>

definition resolve_cell :: "(node list \<Rightarrow> node list) \<Rightarrow> nat \<Rightarrow> eqclass list
    \<Rightarrow> (error \<times> logval list) + cell_state" where
  "resolve_cell set_order number_of_features equivalence_classes =
     process_subgraphs number_of_features
       (subgraphs set_order (build_graph equivalence_classes))
       \<lparr>counts = [], em_array = []\<rparr>"

text \<open>
  The EM step. \<open>run_em\<close> (module \<open>irescue.em\<close>) is not among the sources and is a
  parameter: it takes the array without its all-zero columns and the number of
  cycles. \<open>tokeep\<close> are the 1-based indexes of the columns kept.
\<close>

definition em_update :: "(nat list list \<Rightarrow> nat \<Rightarrow> real list) \<Rightarrow> nat \<Rightarrow> cell_state
    \<Rightarrow> (feature \<times> real) list" where
  "em_update run_em number_of_features st =
     (let em = em_array st;
          kept = [j \<leftarrow> [0..<number_of_features]. list_ex (\<lambda>row. row ! j > 0) em];
          tokeep = [j + 1. j \<leftarrow> kept];
          reduced = [[row ! j. j \<leftarrow> [0..<number_of_features],
                        \<not> list_all (\<lambda>row'. row' ! j = 0) em]. row \<leftarrow> em];
          em_counts = [x * real (length reduced). x \<leftarrow> run_em reduced 100]
      in fold (\<lambda>(i, c) cs. if c > 0 then counter_add cs i c else cs)
           (zip tokeep em_counts) (counts st))"

definition compute_cell_counts :: "(nat list list \<Rightarrow> nat \<Rightarrow> real list)
    \<Rightarrow> (node list \<Rightarrow> node list) \<Rightarrow> nat \<Rightarrow> eqclass list
    \<Rightarrow> (error \<times> logval list) + (feature \<times> real) list" where
  "compute_cell_counts run_em set_order number_of_features equivalence_classes =
     (case resolve_cell set_order number_of_features equivalence_classes of
        Inl e \<Rightarrow> Inl e
      | Inr st \<Rightarrow>
          Inr (if em_array st \<noteq> [] then em_update run_em number_of_features st
               else counts st))"

section \<open>Writing and assembling the matrix\<close>

text \<open>
  A line of a matrix file, \<^verbatim>\<open>f'{feature} {cellidx} {round(count, 3)}\n'\<close>, as its
  three fields. Python's \<open>round\<close> rounds an exact tie to the even neighbour.
\<close>

type_synonym mtx_line = "feature \<times> nat \<times> real"

definition round_half_even :: "real \<Rightarrow> int" where
  "round_half_even x =
     (if x - of_int \<lfloor>x\<rfloor> < 1 / 2 then \<lfloor>x\<rfloor>
      else if x - of_int \<lfloor>x\<rfloor> > 1 / 2 then \<lfloor>x\<rfloor> + 1
      else if even \<lfloor>x\<rfloor> then \<lfloor>x\<rfloor> else \<lfloor>x\<rfloor> + 1)"

definition py_round :: "real \<Rightarrow> nat \<Rightarrow> real" where
  "py_round x ndigits = of_int (round_half_even (x * 10 ^ ndigits)) / 10 ^ ndigits"

definition matrix_lines :: "nat \<Rightarrow> (feature \<times> real) list \<Rightarrow> mtx_line list" where
  "matrix_lines cellidx cellcounts =
     [(feature, cellidx, py_round cnt 3). (feature, cnt) \<leftarrow> cellcounts, cnt \<ge> 1 / 1000]"

text \<open>
  \<open>formatMM\<close>: the header line with the three totals, then the lines of all matrix
  files through \<^verbatim>\<open>LC_ALL=C sort -k2,2n -k1,1n\<close>: the second field is the first
  key, the first field the second. (Lines equal in both keys are left in their order
  here; \<open>sort\<close> orders them by their text.) \<open>getlen\<close> (module \<open>irescue.misc\<close>, not
  among the sources) is the number of lines of a file.
\<close>

record matrix_market =
  mm_totals :: "nat \<times> nat \<times> nat"
  mm_lines :: "mtx_line list"

definition sort_key_of :: "mtx_line \<Rightarrow> nat \<times> nat" where
  "sort_key_of l = (fst (snd l), fst l)"

definition formatMM :: "mtx_line list list \<Rightarrow> (string \<times> nat) list
    \<Rightarrow> (nat \<times> (string \<times> nat) list) list \<Rightarrow> matrix_market" where
  "formatMM matrix_files feature_index barcodes_chunks =
     (let features_count = length feature_index;
          barcodes_count = sum_list [length x. (i, x) \<leftarrow> barcodes_chunks];
          mmsize = sum_list [length f. f \<leftarrow> matrix_files]
      in \<lparr>mm_totals = (features_count, barcodes_count, mmsize),
          mm_lines = sort_key sort_key_of (concat matrix_files)\<rparr>)"

section \<open>Example graphs\<close>

text \<open>
  A chain of four nodes: the feature set of node 1 and that of node 2 do not meet, and
  node 3 shares no feature with node 0.
\<close>

definition chain3 :: digraph where
  "chain3 = \<lparr>gnodes = [(0, \<lparr>ft = {1, 2}, c = 4\<rparr>), (1, \<lparr>ft = {1}, c = 2\<rparr>),
                       (2, \<lparr>ft = {2}, c = 1\<rparr>), (3, \<lparr>ft = {3}, c = 1\<rparr>)],
             gedges = [(0, 1), (1, 2), (2, 3)]\<rparr>"

text \<open>
  Subgraphs in which every node has an incoming edge: two nodes joined in both
  directions; three and four nodes in a row, neighbours joined in both directions.
\<close>

definition pair2 :: digraph where
  "pair2 = \<lparr>gnodes = [(0, \<lparr>ft = {1}, c = 1\<rparr>), (1, \<lparr>ft = {1, 2}, c = 1\<rparr>)],
            gedges = [(0, 1), (1, 0)]\<rparr>"

definition ring3 :: digraph where
  "ring3 = \<lparr>gnodes = [(0, \<lparr>ft = {1}, c = 1\<rparr>), (1, \<lparr>ft = {1, 2}, c = 1\<rparr>),
                      (2, \<lparr>ft = {2}, c = 1\<rparr>)],
            gedges = [(0, 1), (1, 0), (1, 2), (2, 1)]\<rparr>"

definition line4 :: digraph where
  "line4 = \<lparr>gnodes = [(0, \<lparr>ft = {1}, c = 1\<rparr>), (1, \<lparr>ft = {1, 2}, c = 1\<rparr>),
                      (2, \<lparr>ft = {2, 3}, c = 1\<rparr>), (3, \<lparr>ft = {3}, c = 1\<rparr>)],
            gedges = [(0, 1), (1, 0), (1, 2), (2, 1), (2, 3), (3, 2)]\<rparr>"

section \<open>Connectivity\<close>

lemma mismatches_filter:
  "mismatches a b = int (length (filter (\<lambda>(i, j). i \<noteq> j) (zip a b)))"
proof -
  have "sum_list (map (\<lambda>p. 1::int) ps) = int (length ps)" for ps :: "(char \<times> char) list"
    by (induction ps) auto
  moreover have "concat (map (\<lambda>(i, j). if i \<noteq> j then [1::int] else []) ps)
      = map (\<lambda>p. 1) (filter (\<lambda>(i, j). i \<noteq> j) ps)" for ps :: "(char \<times> char) list"
    by (induction ps) auto
  ultimately show ?thesis
    by (simp add: mismatches_def)
qed

lemma length_filter_zip_card:
  "length (filter (\<lambda>(i, j). i \<noteq> j) (zip a b))
     = card {k. k < length a \<and> k < length b \<and> a ! k \<noteq> b ! k}"
proof -
  have "length (filter (\<lambda>(i, j). i \<noteq> j) (zip a b))
      = card {k. k < length (zip a b) \<and> (\<lambda>(i, j). i \<noteq> j) (zip a b ! k)}"
    by (rule length_filter_conv_card)
  also have "{k. k < length (zip a b) \<and> (\<lambda>(i, j). i \<noteq> j) (zip a b ! k)}
      = {k. k < length a \<and> k < length b \<and> a ! k \<noteq> b ! k}"
    by auto
  finally show ?thesis .
qed

lemma mismatches_hamming: "mismatches a b = int (hamming a b)"
  by (simp add: mismatches_filter length_filter_zip_card hamming_def)

lemma connect_umis_hamming:
  "connect_umis x y threshold \<longleftrightarrow>
     ec_count x \<ge> 2 * ec_count y - 1 \<and> ec_ft x \<inter> ec_ft y \<noteq> {}
     \<and> int (hamming (ec_umi x) (ec_umi y)) \<le> threshold"
  by (simp add: connect_umis_def mismatches_hamming)

text \<open>
  Claim C10. When the connectivity relation holds in both directions between two
  equivalence classes, both read counts are at most 1; read counts being counts (not
  negative), each of them is 0 or 1.
\<close>

theorem bidirectional_counts_at_most_one:
  assumes "connect_umis x y threshold" and "connect_umis y x threshold"
  shows "ec_count x \<le> 1 \<and> ec_count y \<le> 1
         \<and> (0 \<le> ec_count x \<longrightarrow> ec_count x = 0 \<or> ec_count x = 1)
         \<and> (0 \<le> ec_count y \<longrightarrow> ec_count y = 0 \<or> ec_count y = 1)"
proof -
  from assms have "ec_count x \<ge> 2 * ec_count y - 1" and "ec_count y \<ge> 2 * ec_count x - 1"
    by (simp_all add: connect_umis_def)
  then show ?thesis by arith
qed

theorem bidirectional_counts_at_most_one_witness:
  "connect_umis (''AAA'', {1}, 1) (''AAT'', {1, 2}, 1) 1
   \<and> connect_umis (''AAT'', {1, 2}, 1) (''AAA'', {1}, 1) 1
   \<and> ec_count (''AAA'', {1}, 1) \<le> 1 \<and> ec_count (''AAT'', {1, 2}, 1) \<le> 1"
proof -
  have a: "connect_umis (''AAA'', {1}, 1) (''AAT'', {1, 2}, 1) 1"
    by (simp add: connect_umis_def ec_count_def ec_ft_def ec_umi_def mismatches_def)
  have b: "connect_umis (''AAT'', {1, 2}, 1) (''AAA'', {1}, 1) 1"
    by (simp add: connect_umis_def ec_count_def ec_ft_def ec_umi_def mismatches_def)
  from a b bidirectional_counts_at_most_one [OF a b] show ?thesis by simp
qed

section \<open>The edges of the graph\<close>

lemma set_gedges_build:
  "set (gedges (build_graph ecs)) =
     {(i, j). i < length ecs \<and> j < length ecs \<and> i \<noteq> j \<and> connect_umis (ecs ! i) (ecs ! j) 1}"
  by (force simp: build_graph_def permutations2_def nth_enumerate_eq case_prod_beta)

lemma node_ids_build: "node_ids (build_graph ecs) = [0..<length ecs]"
  by (simp add: build_graph_def node_ids_def enumerate_eq_zip case_prod_beta comp_def)

text \<open>
  Claim C1. For two different equivalence classes of one cell, at positions \<open>i\<close> and
  \<open>j\<close> of the list, the graph has the edge from \<open>i\<close> to \<open>j\<close> exactly when the count
  of the first is at least twice the count of the second minus one, their feature
  sets meet, and the Hamming distance of their UMIs over the positions both have is at
  most the threshold 1. No node of any cell has an edge to itself, and every edge
  joins two positions of the list.
\<close>

theorem build_graph_edge_iff:
  "(i < length ecs \<and> j < length ecs \<and> i \<noteq> j \<longrightarrow>
      ((i, j) \<in> set (gedges (build_graph ecs)) \<longleftrightarrow>
         ec_count (ecs ! i) \<ge> 2 * ec_count (ecs ! j) - 1
         \<and> ec_ft (ecs ! i) \<inter> ec_ft (ecs ! j) \<noteq> {}
         \<and> hamming (ec_umi (ecs ! i)) (ec_umi (ecs ! j)) \<le> 1))
   \<and> (k, k) \<notin> set (gedges (build_graph ecs))
   \<and> ((u, v) \<in> set (gedges (build_graph ecs)) \<longrightarrow>
        u < length ecs \<and> v < length ecs \<and> u \<noteq> v)"
  by (simp add: set_gedges_build connect_umis_hamming)

theorem build_graph_edge_iff_witness:
  "((0, 1) \<in> set (gedges (build_graph [(''AAAAA'', {1}, 5), (''AAAAT'', {1, 2}, 2)])) \<longleftrightarrow>
      (5::int) \<ge> 2 * 2 - 1 \<and> {1::nat} \<inter> {1, 2} \<noteq> {} \<and> hamming ''AAAAA'' ''AAAAT'' \<le> 1)
   \<and> (0, 0) \<notin> set (gedges (build_graph [(''AAAAA'', {1}, 5), (''AAAAT'', {1, 2}, 2)]))
   \<and> (0, 1) \<in> set (gedges (build_graph [(''AAAAA'', {1}, 5), (''AAAAT'', {1, 2}, 2)]))
   \<and> (0, 0) \<notin> set (gedges (build_graph [(''AAAAA'', {1}, 5)]))"
proof -
  have e: "(0, 1) \<in> set (gedges (build_graph [(''AAAAA'', {1}, 5), (''AAAAT'', {1, 2}, 2)]))"
    by (simp add: set_gedges_build connect_umis_def mismatches_def ec_count_def ec_ft_def
        ec_umi_def)
  from e build_graph_edge_iff [of 0 "[(''AAAAA'', {1}, 5), (''AAAAT'', {1, 2}, 2)]" 1 0 0 1]
    build_graph_edge_iff [of 0 "[(''AAAAA'', {1}, 5)]" 0 0 0 0]
  show ?thesis by (simp add: ec_count_def ec_ft_def ec_umi_def)
qed

section \<open>The matrix files\<close>

lemma round_half_even_bounds:
  "\<bar>of_int (round_half_even x) - x\<bar> \<le> 1 / 2"
proof -
  have lo: "of_int \<lfloor>x\<rfloor> \<le> x" and hi: "x < of_int \<lfloor>x\<rfloor> + 1" by linarith+
  consider "x - of_int \<lfloor>x\<rfloor> < 1 / 2" | "x - of_int \<lfloor>x\<rfloor> > 1 / 2"
    | "x - of_int \<lfloor>x\<rfloor> = 1 / 2" by linarith
  then show ?thesis
  proof cases
    case 1
    then have "round_half_even x = \<lfloor>x\<rfloor>" by (simp add: round_half_even_def)
    with 1 lo show ?thesis by simp
  next
    case 2
    then have "round_half_even x = \<lfloor>x\<rfloor> + 1" by (simp add: round_half_even_def)
    with 2 hi show ?thesis by simp
  next
    case 3
    then have "round_half_even x = \<lfloor>x\<rfloor> \<or> round_half_even x = \<lfloor>x\<rfloor> + 1"
      by (simp add: round_half_even_def)
    with 3 show ?thesis by auto
  qed
qed

lemma round_half_even_ge_1: "1 \<le> x \<Longrightarrow> 1 \<le> round_half_even x"
proof -
  assume "1 \<le> x"
  then have "1 \<le> \<lfloor>x\<rfloor>" by (simp add: le_floor_iff)
  then show ?thesis unfolding round_half_even_def by simp
qed

lemma py_round3_ge: "1 / 1000 \<le> x \<Longrightarrow> 1 / 1000 \<le> py_round x 3"
proof -
  assume "1 / 1000 \<le> x"
  then have "1 \<le> x * 10 ^ 3" by simp
  then have "1 \<le> round_half_even (x * 10 ^ 3)" by (rule round_half_even_ge_1)
  then have "(1::real) \<le> of_int (round_half_even (x * 10 ^ 3))" by linarith
  then show ?thesis by (simp add: py_round_def)
qed

lemma py_round3_close: "\<bar>py_round x 3 - x\<bar> \<le> 1 / 2000"
proof -
  have "\<bar>of_int (round_half_even (x * 10 ^ 3)) - x * 10 ^ 3\<bar> \<le> 1 / 2"
    by (rule round_half_even_bounds)
  then have "\<bar>of_int (round_half_even (x * 10 ^ 3)) - x * 10 ^ 3\<bar> / 1000 \<le> (1 / 2) / 1000"
    by (rule divide_right_mono) simp
  moreover have "\<bar>of_int (round_half_even (x * 10 ^ 3)) - x * 10 ^ 3\<bar> / 1000
      = \<bar>py_round x 3 - x\<bar>"
    by (simp add: py_round_def abs_if field_simps)
  ultimately show ?thesis by simp
qed


lemma set_matrix_lines:
  "set (matrix_lines cellidx cellcounts)
     = {(feature, cellidx, py_round cnt 3) | feature cnt.
          (feature, cnt) \<in> set cellcounts \<and> cnt \<ge> 1 / 1000}"
  unfolding matrix_lines_def by (induction cellcounts) auto

lemma round_half_even_tie:
  assumes "\<bar>of_int (round_half_even x) - x\<bar> = 1 / 2"
  shows "even (round_half_even x)"
proof -
  have lo: "of_int \<lfloor>x\<rfloor> \<le> x" and hi: "x < of_int \<lfloor>x\<rfloor> + 1" by linarith+
  consider "x - of_int \<lfloor>x\<rfloor> < 1 / 2" | "x - of_int \<lfloor>x\<rfloor> > 1 / 2"
    | "x - of_int \<lfloor>x\<rfloor> = 1 / 2" by linarith
  then show ?thesis
  proof cases
    case 1
    then have "round_half_even x = \<lfloor>x\<rfloor>" by (simp add: round_half_even_def)
    with 1 lo assms show ?thesis by simp
  next
    case 2
    then have "round_half_even x = \<lfloor>x\<rfloor> + 1" by (simp add: round_half_even_def)
    with 2 hi assms show ?thesis by simp
  next
    case 3
    then show ?thesis by (simp add: round_half_even_def)
  qed
qed

lemma py_round3_nearest_even:
  "\<exists>k::int. py_round x 3 = of_int k / 1000
     \<and> \<bar>of_int k - x * 1000\<bar> \<le> 1 / 2
     \<and> (\<bar>of_int k - x * 1000\<bar> = 1 / 2 \<longrightarrow> even k)"
proof (intro exI conjI)
  show "py_round x 3 = of_int (round_half_even (x * 1000)) / 1000"
    by (simp add: py_round_def)
  show "\<bar>of_int (round_half_even (x * 1000)) - x * 1000\<bar> \<le> 1 / 2"
    by (rule round_half_even_bounds)
  show "\<bar>of_int (round_half_even (x * 1000)) - x * 1000\<bar> = 1 / 2
      \<longrightarrow> even (round_half_even (x * 1000))"
    using round_half_even_tie [of "x * 1000"] by blast
qed

lemma py_round_examples:
  "py_round 1 3 = 1" "py_round (1 / 16) 3 = 31 / 500" "py_round (3 / 2000) 3 = 2 / 1000"
  "py_round (12345 / 10000) 3 = 1234 / 1000" "py_round (2 / 3) 3 = 667 / 1000"
  by (simp_all add: py_round_def round_half_even_def)

text \<open>
  Claim C9. An entry of the per-cell counts (a dictionary: its keys are distinct) gets
  a line in the matrix file exactly when its count is at least 0.001. The line holds
  the feature, the barcode index and the count rounded to three decimal places: a
  whole number of thousandths, the one nearest to the count, the even one of the two
  when the count lies half way between them. The rounded count is itself at least
  0.001, so never negative. (Counts are floats in the program and real numbers here.)
\<close>

theorem matrix_lines_threshold:
  assumes "distinct (map fst cellcounts)" and "(feature, cnt) \<in> set cellcounts"
  shows "((\<exists>b r. (feature, b, r) \<in> set (matrix_lines cellidx cellcounts)) \<longleftrightarrow> cnt \<ge> 1 / 1000)
     \<and> (cnt \<ge> 1 / 1000 \<longrightarrow>
          (feature, cellidx, py_round cnt 3) \<in> set (matrix_lines cellidx cellcounts))
     \<and> (\<forall>b r. (feature, b, r) \<in> set (matrix_lines cellidx cellcounts) \<longrightarrow>
          b = cellidx \<and> r = py_round cnt 3 \<and> r \<ge> 1 / 1000 \<and> \<bar>r - cnt\<bar> \<le> 1 / 2000
          \<and> (\<exists>k::int. r = of_int k / 1000
                \<and> \<bar>of_int k - cnt * 1000\<bar> \<le> 1 / 2
                \<and> (\<bar>of_int k - cnt * 1000\<bar> = 1 / 2 \<longrightarrow> even k)))"
proof -
  have same: "cnt' = cnt" if "(feature, cnt') \<in> set cellcounts" for cnt'
    by (rule eq_key_imp_eq_value [OF assms(1) that assms(2)])
  have mem: "(feature, b, r) \<in> set (matrix_lines cellidx cellcounts) \<longleftrightarrow>
      b = cellidx \<and> r = py_round cnt 3 \<and> cnt \<ge> 1 / 1000" for b r
  proof
    assume "(feature, b, r) \<in> set (matrix_lines cellidx cellcounts)"
    then obtain cnt' where "(feature, cnt') \<in> set cellcounts" and "cnt' \<ge> 1 / 1000"
      and "b = cellidx" and "r = py_round cnt' 3"
      unfolding set_matrix_lines by blast
    with same [of cnt'] show "b = cellidx \<and> r = py_round cnt 3 \<and> cnt \<ge> 1 / 1000"
      by blast
  next
    assume "b = cellidx \<and> r = py_round cnt 3 \<and> cnt \<ge> 1 / 1000"
    with assms(2) show "(feature, b, r) \<in> set (matrix_lines cellidx cellcounts)"
      unfolding set_matrix_lines by blast
  qed
  have 1: "(\<exists>b r. (feature, b, r) \<in> set (matrix_lines cellidx cellcounts)) \<longleftrightarrow> cnt \<ge> 1 / 1000"
    unfolding mem by blast
  have 2: "cnt \<ge> 1 / 1000 \<longrightarrow>
      (feature, cellidx, py_round cnt 3) \<in> set (matrix_lines cellidx cellcounts)"
    unfolding mem by blast
  have 3: "\<forall>b r. (feature, b, r) \<in> set (matrix_lines cellidx cellcounts) \<longrightarrow>
      b = cellidx \<and> r = py_round cnt 3 \<and> r \<ge> 1 / 1000 \<and> \<bar>r - cnt\<bar> \<le> 1 / 2000
      \<and> (\<exists>k::int. r = of_int k / 1000
            \<and> \<bar>of_int k - cnt * 1000\<bar> \<le> 1 / 2
            \<and> (\<bar>of_int k - cnt * 1000\<bar> = 1 / 2 \<longrightarrow> even k))"
    unfolding mem
    using py_round3_ge [of cnt] py_round3_close [of cnt] py_round3_nearest_even [of cnt]
    by blast
  from 1 2 3 show ?thesis by blast
qed

theorem matrix_lines_threshold_witness:
  "distinct (map fst [(1::nat, 1::real), (2, 4 / 10000), (3, 1 / 16)])
   \<and> (1, 1) \<in> set [(1::nat, 1::real), (2, 4 / 10000), (3, 1 / 16)]
   \<and> (2, 4 / 10000) \<in> set [(1::nat, 1::real), (2, 4 / 10000), (3, 1 / 16)]
   \<and> (3, 1 / 16) \<in> set [(1::nat, 1::real), (2, 4 / 10000), (3, 1 / 16)]
   \<and> (1, 7, 1) \<in> set (matrix_lines 7 [(1, 1), (2, 4 / 10000), (3, 1 / 16)])
   \<and> (3, 7, 31 / 500) \<in> set (matrix_lines 7 [(1, 1), (2, 4 / 10000), (3, 1 / 16)])
   \<and> \<not> (\<exists>b r. (2, b, r) \<in> set (matrix_lines 7 [(1, 1), (2, 4 / 10000), (3, 1 / 16)]))"
proof -
  let ?cs = "[(1::nat, 1::real), (2, 4 / 10000), (3, 1 / 16)]"
  have d: "distinct (map fst ?cs)" by simp
  have m1: "(1, 1) \<in> set ?cs" by simp
  have m2: "(2, 4 / 10000) \<in> set ?cs" by simp
  have m3: "(3, 1 / 16) \<in> set ?cs" by simp
  have "(1::real) \<ge> 1 / 1000" by simp
  with matrix_lines_threshold [OF d m1, of 7]
  have "(1, 7, py_round 1 3) \<in> set (matrix_lines 7 ?cs)" by blast
  then have a: "(1, 7, 1) \<in> set (matrix_lines 7 ?cs)"
    unfolding py_round_examples .
  have "(1 / 16 :: real) \<ge> 1 / 1000" by simp
  with matrix_lines_threshold [OF d m3, of 7]
  have "(3, 7, py_round (1 / 16) 3) \<in> set (matrix_lines 7 ?cs)" by blast
  then have c: "(3, 7, 31 / 500) \<in> set (matrix_lines 7 ?cs)"
    unfolding py_round_examples .
  have "\<not> (4 / 10000 :: real) \<ge> 1 / 1000" by simp
  with matrix_lines_threshold [OF d m2, of 7]
  have b: "\<not> (\<exists>b r. (2, b, r) \<in> set (matrix_lines 7 ?cs))"
    by blast
  from d m1 m2 m3 a b c show ?thesis by blast
qed

lemma sort_key_of_le:
  "sort_key_of l \<le> sort_key_of l' \<longleftrightarrow>
     fst (snd l) < fst (snd l') \<or> (fst (snd l) = fst (snd l') \<and> fst l \<le> fst l')"
  by (auto simp: sort_key_of_def)

text \<open>
  Claim C5, as amended. The assembled matrix is sorted by barcode index first (the
  second field) and by feature index second (the first field); it holds the lines of
  all partial files, and its header records the number of features, the number of
  barcodes over all chunks and the number of lines summed over the partial files.
\<close>

theorem formatMM_barcode_then_feature:
  "sorted_wrt (\<lambda>l l'. fst (snd l) < fst (snd l') \<or> (fst (snd l) = fst (snd l') \<and> fst l \<le> fst l'))
     (mm_lines (formatMM matrix_files feature_index barcodes_chunks))
   \<and> mset (mm_lines (formatMM matrix_files feature_index barcodes_chunks))
       = mset (concat matrix_files)
   \<and> mm_totals (formatMM matrix_files feature_index barcodes_chunks)
       = (length feature_index,
          sum_list (map (\<lambda>chunk. length (snd chunk)) barcodes_chunks),
          length (concat matrix_files))"
proof -
  have "sorted (map sort_key_of (sort_key sort_key_of (concat matrix_files)))"
    by (rule sorted_sort_key)
  then have "sorted_wrt (\<lambda>l l'. sort_key_of l \<le> sort_key_of l')
      (sort_key sort_key_of (concat matrix_files))"
    by (simp only: sorted_map)
  then have s: "sorted_wrt (\<lambda>l l'. fst (snd l) < fst (snd l') \<or> (fst (snd l) = fst (snd l') \<and> fst l \<le> fst l'))
      (sort_key sort_key_of (concat matrix_files))"
    by (simp only: sort_key_of_le)
  have b: "map (\<lambda>(i, x). length x) barcodes_chunks = map (\<lambda>chunk. length (snd chunk)) barcodes_chunks"
    by (rule map_cong) (simp_all add: case_prod_beta)
  have m: "sum_list (map length matrix_files) = length (concat matrix_files)"
    by (simp add: length_concat)
  have l: "mm_lines (formatMM matrix_files feature_index barcodes_chunks)
      = sort_key sort_key_of (concat matrix_files)"
    by (simp add: formatMM_def Let_def)
  have t: "mm_totals (formatMM matrix_files feature_index barcodes_chunks)
       = (length feature_index,
          sum_list (map (\<lambda>chunk. length (snd chunk)) barcodes_chunks),
          length (concat matrix_files))"
    unfolding formatMM_def Let_def by (simp add: b m del: length_concat)
  show ?thesis unfolding l using s t by simp
qed


lemma formatMM_example:
  "mm_lines (formatMM [[(1, 2, 1)], [(2, 1, 1)]] [(''f1'', 1), (''f2'', 2)]
      [(0, [(''AC'', 1)]), (1, [(''GT'', 2)])]) = [(2, 1, 1), (1, 2, 1)]"
  by (simp add: formatMM_def sort_key_of_def)

text \<open>
  The claim as first stated (feature index first, barcode index second) fails: of the
  lines \<open>1 2 1.0\<close> and \<open>2 1 1.0\<close> the second comes first in the output.
\<close>

theorem formatMM_feature_first_counterexample:
  "mm_lines (formatMM [[(1, 2, 1)], [(2, 1, 1)]] [(''f1'', 1), (''f2'', 2)]
      [(0, [(''AC'', 1)]), (1, [(''GT'', 2)])]) = [(2, 1, 1), (1, 2, 1)]
   \<and> \<not> sorted_wrt (\<lambda>l l'. fst l < fst l' \<or> (fst l = fst l' \<and> fst (snd l) \<le> fst (snd l')))
       (mm_lines (formatMM [[(1, 2, 1)], [(2, 1, 1)]] [(''f1'', 1), (''f2'', 2)]
          [(0, [(''AC'', 1)]), (1, [(''GT'', 2)])]))"
  unfolding formatMM_example by simp

theorem formatMM_barcode_then_feature_witness:
  "sorted_wrt (\<lambda>l l'. fst (snd l) < fst (snd l') \<or> (fst (snd l) = fst (snd l') \<and> fst l \<le> fst l'))
     [(2::nat, 1::nat, 1::real), (1, 2, 1)]
   \<and> mm_totals (formatMM [[(1, 2, 1)], [(2, 1, 1)]] [(''f1'', 1), (''f2'', 2)]
      [(0, [(''AC'', 1)]), (1, [(''GT'', 2)])]) = (2, 2, 2)"
  using formatMM_barcode_then_feature [of "[[(1, 2, 1)], [(2, 1, 1)]]" "[(''f1'', 1), (''f2'', 2)]"
      "[(0, [(''AC'', 1)]), (1, [(''GT'', 2)])]"]
  unfolding formatMM_example by simp

section \<open>Cells with a single equivalence class\<close>

lemma build_graph_single:
  "build_graph [e] = \<lparr>gnodes = [(0, \<lparr>ft = ec_ft e, c = ec_count e\<rparr>)], gedges = []\<rparr>"
  by (simp add: build_graph_def permutations2_def)

lemma subgraphs_single:
  "subgraphs set_order \<lparr>gnodes = [(0, p)], gedges = []\<rparr>
     = [\<lparr>gnodes = [(0, p)], gedges = []\<rparr>]"
  by (simp add: subgraphs_def connected_components_def component_def grow_def node_ids_def
      subgraph_def adjacent_def)

lemma solve_subgraph_single:
  "solve_subgraph \<lparr>gnodes = [(0, p)], gedges = []\<rparr>
     = Inr ([[0]], [sorted_list_of_set (ft p)])"
  by (simp add: solve_subgraph_def select_config_def all_paths_def effective_parents_def
      find_parents_def predecessors_def node_ids_def parent_paths_def successors_def
      path_features_def initial_features_def node_ft_def Let_def)


text \<open>
  Claim C4, as amended. For a list with exactly one equivalence class whose feature
  set has exactly one feature, per-cell counting yields that feature with count 1.0:
  no row is put aside for EM and the EM solver (whatever it computes) is not called.
\<close>

theorem single_class_single_feature:
  assumes "ec_ft e = {f}"
  shows "resolve_cell set_order number_of_features [e]
       = Inr \<lparr>counts = [(f, 1)], em_array = []\<rparr>
     \<and> compute_cell_counts run_em set_order number_of_features [e] = Inr [(f, 1)]"
proof -
  have "resolve_cell set_order number_of_features [e]
      = Inr \<lparr>counts = [(f, 1)], em_array = []\<rparr>"
    using assms
    by (simp add: resolve_cell_def build_graph_single subgraphs_single process_subgraph_def
        solve_subgraph_single counter_add_def counter_get_def)
  then show ?thesis by (simp add: compute_cell_counts_def)
qed

theorem single_class_single_feature_witness:
  "ec_ft (''AAAAA'', {3}, 5) = {3}
   \<and> resolve_cell (\<lambda>nodes. nodes) 4 [(''AAAAA'', {3}, 5)]
       = Inr \<lparr>counts = [(3, 1)], em_array = []\<rparr>
   \<and> compute_cell_counts (\<lambda>rows cycles. []) (\<lambda>nodes. nodes) 4 [(''AAAAA'', {3}, 5)]
       = Inr [(3, 1)]"
proof -
  have h: "ec_ft (''AAAAA'', {3}, 5) = {3}" by (simp add: ec_ft_def)
  from h single_class_single_feature [OF h, of "\<lambda>nodes. nodes" 4 "\<lambda>rows cycles. []"]
  show ?thesis by simp
qed

text \<open>
  The claim as first stated, for every one-element list, fails for a class with two
  features: nothing is counted directly, one row goes to EM, and the counts returned
  are those the EM solver gives.
\<close>

theorem single_class_counterexample:
  "resolve_cell (\<lambda>nodes. nodes) 2 [(''AC'', {1, 2}, 3)]
     = Inr \<lparr>counts = [], em_array = [[1, 1]]\<rparr>
   \<and> compute_cell_counts (\<lambda>rows cycles. [1 / 2, 1 / 2]) (\<lambda>nodes. nodes) 2
         [(''AC'', {1, 2}, 3)]
       = Inr [(1, 1 / 2), (2, 1 / 2)]"
proof -
  have s: "sorted_list_of_set {1, 2 :: nat} = [1, 2]" by code_simp
  have r: "resolve_cell (\<lambda>nodes. nodes) 2 [(''AC'', {1, 2}, 3)]
      = Inr \<lparr>counts = [], em_array = [[1, 1]]\<rparr>"
    by (simp add: resolve_cell_def build_graph_single subgraphs_single process_subgraph_def
        solve_subgraph_single ec_ft_def s upt_rec)
  have "compute_cell_counts (\<lambda>rows cycles. [1 / 2, 1 / 2]) (\<lambda>nodes. nodes) 2
         [(''AC'', {1, 2}, 3)]
       = Inr [(1, 1 / 2), (2, 1 / 2)]"
    unfolding compute_cell_counts_def r
    by (simp add: em_update_def upt_rec counter_add_def counter_get_def)
  with r show ?thesis by simp
qed


section \<open>The path walk\<close>

lemma pathfinder_unfold:
  "pathfinder g n p fs = pathfinder_loop g (anchor_of g n fs) (successors g n) (p @ [n])"
  by (simp add: anchor_of_def)

lemma anchor_of_Some: "a \<inter> s \<noteq> {} \<Longrightarrow> anchor_of g n (Some a) = a"
  by (auto simp: anchor_of_def)

declare pathfinder.simps [simp del]

lemma loop_visit:
  "a \<inter> node_ft g v \<noteq> {} \<and> v \<notin> set p \<Longrightarrow>
     pathfinder_loop g a (v # rest) p = pathfinder_loop g a rest (pathfinder g v p (Some a))"
  by simp

lemma loop_skip:
  "\<not> (a \<inter> node_ft g v \<noteq> {} \<and> v \<notin> set p) \<Longrightarrow>
     pathfinder_loop g a (v # rest) p = pathfinder_loop g a rest p"
  by auto

declare pathfinder_loop.simps(2) [simp del]

lemma pathfinder_extends:
  "\<exists>ext. pathfinder g n p fs = p @ n # ext"
  "\<exists>ext. pathfinder_loop g a todo p = p @ ext"
proof (induction g n p fs and g a todo p rule: pathfinder_pathfinder_loop.induct)
  case (1 graph node path features)
  then show ?case by (simp add: pathfinder_unfold anchor_of_def)
next
  case (2 graph features path)
  then show ?case by simp
next
  case (3 graph features next_node rest path)
  show ?case
  proof (cases "features \<inter> node_ft graph next_node \<noteq> {} \<and> next_node \<notin> set path")
    case True
    from 3(1) [OF True] obtain e1 where e1: "pathfinder graph next_node path (Some features) = path @ next_node # e1"
      by blast
    from 3(2) [OF True] obtain e2 where "pathfinder_loop graph features rest
        (pathfinder graph next_node path (Some features))
      = pathfinder graph next_node path (Some features) @ e2"
      by blast
    with e1 show ?thesis by (simp add: loop_visit [OF True])
  next
    case False
    with 3(3) show ?thesis by (simp add: loop_skip)
  qed
qed

lemma pathfinder_grows:
  "set p \<union> {n} \<subseteq> set (pathfinder g n p fs)"
  "set p \<subseteq> set (pathfinder_loop g a todo p)"
  using pathfinder_extends(1) [of g n p fs] pathfinder_extends(2) [of g a todo p]
  by auto

lemma pathfinder_distinct:
  "distinct p \<Longrightarrow> n \<notin> set p \<Longrightarrow> distinct (pathfinder g n p fs)"
  "distinct p \<Longrightarrow> distinct (pathfinder_loop g a todo p)"
proof (induction g n p fs and g a todo p rule: pathfinder_pathfinder_loop.induct)
  case (1 graph node path features)
  then show ?case by (simp add: pathfinder_unfold anchor_of_def)
next
  case (2 graph features path)
  then show ?case by simp
next
  case (3 graph features next_node rest path)
  show ?case
  proof (cases "features \<inter> node_ft graph next_node \<noteq> {} \<and> next_node \<notin> set path")
    case True
    with 3(1) [OF True] 3(4) have "distinct (pathfinder graph next_node path (Some features))"
      by simp
    from 3(2) [OF True this] show ?thesis by (simp add: loop_visit [OF True])
  next
    case False
    from 3(3) [OF False 3(4)] show ?thesis by (simp add: loop_skip [OF False])
  qed
qed

lemma pathfinder_within:
  "set (pathfinder g n p fs) \<subseteq> set p \<union> {n} \<union> targets g"
  "set (pathfinder_loop g a todo p) \<subseteq> set p \<union> set todo \<union> targets g"
proof (induction g n p fs and g a todo p rule: pathfinder_pathfinder_loop.induct)
  case (1 graph node path features)
  from 1 [OF refl] successors_targets [of graph node]
  show ?case by (auto simp: pathfinder_unfold anchor_of_def)
next
  case (2 graph features path)
  then show ?case by simp
next
  case (3 graph features next_node rest path)
  show ?case
  proof (cases "features \<inter> node_ft graph next_node \<noteq> {} \<and> next_node \<notin> set path")
    case True
    from 3(1) [OF True] 3(2) [OF True] show ?thesis
      by (auto simp: loop_visit [OF True])
  next
    case False
    from 3(3) [OF False] show ?thesis by (auto simp: loop_skip [OF False])
  qed
qed


lemma pathfinder_sound:
  "(\<And>u v. (u, v) \<in> anchored_edges g (anchor_of g n fs) \<Longrightarrow> u \<in> X \<Longrightarrow> v \<in> X) \<Longrightarrow> n \<in> X \<Longrightarrow>
     set (pathfinder g n p fs) \<subseteq> set p \<union> X"
  "(\<And>u v. (u, v) \<in> anchored_edges g a \<Longrightarrow> u \<in> X \<Longrightarrow> v \<in> X) \<Longrightarrow>
     (\<And>v. v \<in> set todo \<Longrightarrow> a \<inter> node_ft g v \<noteq> {} \<Longrightarrow> v \<in> X) \<Longrightarrow>
     set (pathfinder_loop g a todo p) \<subseteq> set p \<union> X"
proof (induction g n p fs and g a todo p rule: pathfinder_pathfinder_loop.induct)
  case (1 graph node path features)
  let ?a = "anchor_of graph node features"
  have todo: "v \<in> X" if "v \<in> set (successors graph node)" and "?a \<inter> node_ft graph v \<noteq> {}" for v
  proof -
    from that have "(node, v) \<in> anchored_edges graph ?a"
      by (auto simp: anchored_edges_def successors_def)
    with 1(2) [of node v] 1(3) show ?thesis by blast
  qed
  have "set (pathfinder_loop graph ?a (successors graph node) (path @ [node]))
      \<subseteq> set (path @ [node]) \<union> X"
    by (rule 1(1) [OF anchor_of_def 1(2) todo])
  with 1(3) show ?case by (auto simp: pathfinder_unfold)
next
  case (2 graph features path)
  then show ?case by simp
next
  case (3 graph features next_node rest path)
  have rest: "v \<in> X" if "v \<in> set rest" and "features \<inter> node_ft graph v \<noteq> {}" for v
    using 3(5) [of v] that by simp
  show ?case
  proof (cases "features \<inter> node_ft graph next_node \<noteq> {} \<and> next_node \<notin> set path")
    case True
    then have a: "anchor_of graph next_node (Some features) = features"
      by (auto simp: anchor_of_def)
    have "next_node \<in> X" using 3(5) [of next_node] True by simp
    with 3(1) [OF True] 3(4) a
    have p1: "set (pathfinder graph next_node path (Some features)) \<subseteq> set path \<union> X"
      by simp
    have "set (pathfinder_loop graph features rest (pathfinder graph next_node path (Some features)))
        \<subseteq> set (pathfinder graph next_node path (Some features)) \<union> X"
      by (rule 3(2) [OF True 3(4) rest])
    with p1 show ?thesis by (auto simp: loop_visit [OF True])
  next
    case False
    have "set (pathfinder_loop graph features rest path) \<subseteq> set path \<union> X"
      by (rule 3(3) [OF False 3(4) rest])
    then show ?thesis by (simp add: loop_skip [OF False])
  qed
qed


lemma pathfinder_closed:
  "u \<in> set (pathfinder g n p fs) \<Longrightarrow> u \<notin> set p \<Longrightarrow>
     (u, v) \<in> anchored_edges g (anchor_of g n fs) \<Longrightarrow> v \<in> set (pathfinder g n p fs)"
  "(u \<in> set (pathfinder_loop g a todo p) \<longrightarrow> u \<notin> set p \<longrightarrow>
       (u, v) \<in> anchored_edges g a \<longrightarrow> v \<in> set (pathfinder_loop g a todo p))
   \<and> (\<forall>w \<in> set todo. a \<inter> node_ft g w \<noteq> {} \<longrightarrow> w \<in> set (pathfinder_loop g a todo p))"
proof (induction g n p fs and g a todo p rule: pathfinder_pathfinder_loop.induct)
  case (1 graph node path features)
  let ?a = "anchor_of graph node features"
  let ?r = "pathfinder_loop graph ?a (successors graph node) (path @ [node])"
  note ih = 1(1) [OF anchor_of_def]
  have r: "pathfinder graph node path features = ?r" by (rule pathfinder_unfold)
  show ?case
  proof (cases "u = node")
    case True
    with 1(4) have "v \<in> set (successors graph node)" and "?a \<inter> node_ft graph v \<noteq> {}"
      by (force simp: anchored_edges_def successors_def)+
    with ih show ?thesis unfolding r by blast
  next
    case False
    with 1(2,3) have "u \<in> set ?r" and "u \<notin> set (path @ [node])"
      unfolding r by simp_all
    with ih 1(4) show ?thesis unfolding r by blast
  qed
next
  case (2 graph features path)
  then show ?case by simp
next
  case (3 graph features next_node rest path)
  show ?case
  proof (cases "features \<inter> node_ft graph next_node \<noteq> {} \<and> next_node \<notin> set path")
    case True
    let ?p1 = "pathfinder graph next_node path (Some features)"
    let ?r = "pathfinder_loop graph features rest ?p1"
    have a: "anchor_of graph next_node (Some features) = features"
      using True by (auto simp: anchor_of_def)
    have r: "pathfinder_loop graph features (next_node # rest) path = ?r"
      by (rule loop_visit [OF True])
    have mono: "set ?p1 \<subseteq> set ?r" by (rule pathfinder_grows(2))
    have nxt: "next_node \<in> set ?p1" using pathfinder_grows(1) [of path next_node graph "Some features"]
      by simp
    note ih1 = 3(1) [OF True, unfolded a]
    note ih2 = 3(2) [OF True]
    have c1: "v \<in> set ?r" if "u \<in> set ?r" "u \<notin> set path" "(u, v) \<in> anchored_edges graph features"
    proof (cases "u \<in> set ?p1")
      case True
      with ih1 that mono show ?thesis by blast
    next
      case False
      with ih2 that show ?thesis by blast
    qed
    have c2: "w \<in> set ?r" if "w \<in> set (next_node # rest)" "features \<inter> node_ft graph w \<noteq> {}" for w
    proof (cases "w = next_node")
      case True
      with nxt mono show ?thesis by blast
    next
      case False
      with that ih2 show ?thesis by simp
    qed
    from c1 c2 show ?thesis unfolding r by blast
  next
    case False
    let ?r = "pathfinder_loop graph features rest path"
    have r: "pathfinder_loop graph features (next_node # rest) path = ?r"
      by (rule loop_skip [OF False])
    note ih = 3(3) [OF False]
    have mono: "set path \<subseteq> set ?r" by (rule pathfinder_grows(2))
    have c2: "w \<in> set ?r" if "w \<in> set (next_node # rest)" "features \<inter> node_ft graph w \<noteq> {}" for w
    proof (cases "w = next_node")
      case True
      with False that have "next_node \<in> set path" by blast
      with mono True show ?thesis by blast
    next
      case False
      with that ih show ?thesis by simp
    qed
    from ih c2 show ?thesis unfolding r by blast
  qed
qed

lemma pathfinder_reachable:
  "set (pathfinder g n [] None) = {v. (n, v) \<in> (anchored_edges g (node_ft g n))\<^sup>*}"
proof
  let ?R = "anchored_edges g (node_ft g n)"
  have a: "anchor_of g n None = node_ft g n" by (simp add: anchor_of_def)
  have "set (pathfinder g n [] None) \<subseteq> set [] \<union> {v. (n, v) \<in> ?R\<^sup>*}"
  proof (rule pathfinder_sound(1))
    fix u v assume "(u, v) \<in> anchored_edges g (anchor_of g n None)" and "u \<in> {v. (n, v) \<in> ?R\<^sup>*}"
    then show "v \<in> {v. (n, v) \<in> ?R\<^sup>*}" unfolding a by (auto intro: rtrancl_into_rtrancl)
  qed simp
  then show "set (pathfinder g n [] None) \<subseteq> {v. (n, v) \<in> ?R\<^sup>*}" by simp
  have "v \<in> set (pathfinder g n [] None)" if "(n, v) \<in> ?R\<^sup>*" for v
    using that
  proof (induction rule: rtrancl_induct)
    case base
    show ?case using pathfinder_grows(1) [of "[]" n g None] by simp
  next
    case (step y z)
    from pathfinder_closed(1) [of y g n "[]" None z] step a show ?case by simp
  qed
  then show "{v. (n, v) \<in> ?R\<^sup>*} \<subseteq> set (pathfinder g n [] None)" by blast
qed

text \<open>
  Claim C7. The walk from a node, started with an empty path and no feature set, tests
  every successor against the feature set of the starting node: a successor is put on
  the path, and walked from with the same feature set, exactly when its feature set
  meets that set and it is not yet on the path. So the nodes of the path are the nodes
  reachable from the starting node along edges into nodes whose feature set meets the
  starting node's; the feature sets of the nodes in between do not narrow the test.
\<close>

theorem pathfinder_anchor_fixed:
  "set (pathfinder graph node [] None)
     = {v. (node, v) \<in> (anchored_edges graph (node_ft graph node))\<^sup>*}
   \<and> distinct (pathfinder graph node [] None)
   \<and> hd (pathfinder graph node [] None) = node
   \<and> pathfinder_loop graph anchor (s # rest) path =
       (if anchor \<inter> node_ft graph s \<noteq> {} \<and> s \<notin> set path
        then pathfinder_loop graph anchor rest
               (pathfinder_loop graph anchor (successors graph s) (path @ [s]))
        else pathfinder_loop graph anchor rest path)"
proof -
  have 1: "distinct (pathfinder graph node [] None)"
    by (rule pathfinder_distinct(1)) simp_all
  have 2: "hd (pathfinder graph node [] None) = node"
    using pathfinder_extends(1) [of graph node "[]" None] by auto
  have 3: "pathfinder_loop graph anchor (s # rest) path =
       (if anchor \<inter> node_ft graph s \<noteq> {} \<and> s \<notin> set path
        then pathfinder_loop graph anchor rest
               (pathfinder_loop graph anchor (successors graph s) (path @ [s]))
        else pathfinder_loop graph anchor rest path)"
  proof (cases "anchor \<inter> node_ft graph s \<noteq> {} \<and> s \<notin> set path")
    case True
    then have "anchor_of graph s (Some anchor) = anchor" by (auto simp: anchor_of_def)
    then have "pathfinder graph s path (Some anchor)
        = pathfinder_loop graph anchor (successors graph s) (path @ [s])"
      by (simp add: pathfinder_unfold)
    then show ?thesis unfolding loop_visit [OF True] if_P [OF True] by simp
  next
    case False
    show ?thesis unfolding loop_skip [OF False] if_not_P [OF False] by (rule refl)
  qed
  from pathfinder_reachable [of graph node] 1 2 3 show ?thesis by blast
qed

lemma chain3_walk: "pathfinder chain3 0 [] None = [0, 1, 2]"
  by (simp add: pathfinder_unfold anchor_of_def chain3_def node_ft_def successors_def
      loop_visit loop_skip)

theorem pathfinder_anchor_fixed_witness:
  "pathfinder chain3 0 [] None = [0, 1, 2]
   \<and> node_ft chain3 1 \<inter> node_ft chain3 2 = {}
   \<and> {v. (0, v) \<in> (anchored_edges chain3 (node_ft chain3 0))\<^sup>*} = {0, 1, 2}"
proof -
  have "node_ft chain3 1 \<inter> node_ft chain3 2 = {}"
    by (simp add: chain3_def node_ft_def)
  with pathfinder_anchor_fixed [of chain3 0] chain3_walk show ?thesis by simp
qed

section \<open>Removing the nodes of a path\<close>

lemma remove_node_sel:
  "gnodes (remove_node g x) = [(n, p) \<leftarrow> gnodes g. n \<noteq> x]"
  "gedges (remove_node g x) = [(u, v) \<leftarrow> gedges g. u \<noteq> x \<and> v \<noteq> x]"
  by (simp_all add: remove_node_def)

lemma fold_remove_node:
  "fold (\<lambda>x g. remove_node g x) path g =
     \<lparr>gnodes = [(n, p) \<leftarrow> gnodes g. n \<notin> set path],
      gedges = [(u, v) \<leftarrow> gedges g. u \<notin> set path \<and> v \<notin> set path]\<rparr>"
proof (induction path arbitrary: g)
  case Nil
  then show ?case by simp
next
  case (Cons x path)
  have n: "[(n, p) \<leftarrow> [(n, p) \<leftarrow> ns. n \<noteq> x]. n \<notin> set path]
      = [(n, p) \<leftarrow> ns. n \<notin> set (x # path)]" for ns :: "(node \<times> payload) list"
    by (induction ns) auto
  have e: "[(u, v) \<leftarrow> [(u, v) \<leftarrow> es. u \<noteq> x \<and> v \<noteq> x]. u \<notin> set path \<and> v \<notin> set path]
      = [(u, v) \<leftarrow> es. u \<notin> set (x # path) \<and> v \<notin> set (x # path)]"
    for es :: "(node \<times> node) list"
    by (induction es) auto
  have "fold (\<lambda>x g. remove_node g x) (x # path) g
      = fold (\<lambda>x g. remove_node g x) path (remove_node g x)"
    by simp
  also have "\<dots> = \<lparr>gnodes = [(n, p) \<leftarrow> gnodes (remove_node g x). n \<notin> set path],
      gedges = [(u, v) \<leftarrow> gedges (remove_node g x). u \<notin> set path \<and> v \<notin> set path]\<rparr>"
    by (rule Cons)
  finally show ?case unfolding remove_node_sel n e .
qed

lemma node_ids_removed:
  "node_ids (fold (\<lambda>x g. remove_node g x) path g) = [n \<leftarrow> node_ids g. n \<notin> set path]"
proof -
  have "map fst [(n, p) \<leftarrow> xs. n \<notin> set path] = [n \<leftarrow> map fst xs. n \<notin> set path]"
    for xs :: "(node \<times> payload) list"
    by (induction xs) auto
  then show ?thesis by (simp add: fold_remove_node node_ids_def)
qed

lemma wf_digraph_edges:
  "wf_digraph g \<Longrightarrow> (u, v) \<in> set (gedges g) \<Longrightarrow> u \<in> set (node_ids g) \<and> v \<in> set (node_ids g)"
  by (auto simp: wf_digraph_def list_all_iff)

lemma wf_targets: "wf_digraph g \<Longrightarrow> targets g \<subseteq> set (node_ids g)"
  by (auto simp: targets_def dest: wf_digraph_edges)

lemma wf_removed:
  "wf_digraph g \<Longrightarrow> wf_digraph (fold (\<lambda>x g. remove_node g x) path g)"
  unfolding wf_digraph_def node_ids_removed
  by (auto simp: fold_remove_node list_all_iff)


lemma pathfinder_start:
  assumes "wf_digraph g" and "n \<in> set (node_ids g)"
  shows "distinct (pathfinder g n [] None)"
    and "n \<in> set (pathfinder g n [] None)"
    and "set (pathfinder g n [] None) \<subseteq> set (node_ids g)"
    and "pathfinder g n [] None \<noteq> []"
proof -
  show "distinct (pathfinder g n [] None)" by (rule pathfinder_distinct(1)) simp_all
  show "n \<in> set (pathfinder g n [] None)" using pathfinder_grows(1) [of "[]" n g None] by simp
  then show "pathfinder g n [] None \<noteq> []" by auto
  show "set (pathfinder g n [] None) \<subseteq> set (node_ids g)"
    using pathfinder_within(1) [of g n "[]" None] wf_targets [OF assms(1)] assms(2) by auto
qed

lemma find_paths_partition:
  assumes "wf_digraph g"
    and "distinct (concat found)"
    and "set (concat found) \<inter> set (node_ids g) = {}"
    and "set blacklist = set (concat found)"
    and "set nodes \<subseteq> set (node_ids g) \<union> set blacklist"
  shows "distinct (concat (find_paths g nodes blacklist found))
     \<and> set (concat (find_paths g nodes blacklist found)) \<subseteq> set blacklist \<union> set (node_ids g)
     \<and> set blacklist \<union> set nodes \<subseteq> set (concat (find_paths g nodes blacklist found))"
  using assms
proof (induction nodes arbitrary: g blacklist found)
  case Nil
  then show ?case by simp
next
  case (Cons node nodes)
  show ?case
  proof (cases "node \<in> set blacklist")
    case True
    with Cons.prems have "set nodes \<subseteq> set (node_ids g) \<union> set blacklist" by simp
    from Cons.IH [OF Cons.prems(1-4) this] True show ?thesis by auto
  next
    case False
    let ?path = "pathfinder g node [] None"
    let ?g = "fold (\<lambda>x g. remove_node g x) ?path g"
    from False Cons.prems(5) have n: "node \<in> set (node_ids g)" by auto
    note pf = pathfinder_start [OF Cons.prems(1) n]
    have 1: "wf_digraph ?g" by (rule wf_removed [OF Cons.prems(1)])
    have 2: "distinct (concat (found @ [?path]))"
      using Cons.prems(2,3) pf(1,3) by auto
    have 3: "set (concat (found @ [?path])) \<inter> set (node_ids ?g) = {}"
      using Cons.prems(3) by (auto simp: node_ids_removed)
    have 4: "set (blacklist @ ?path) = set (concat (found @ [?path]))"
      using Cons.prems(4) by simp
    have 5: "set nodes \<subseteq> set (node_ids ?g) \<union> set (blacklist @ ?path)"
      using Cons.prems(5) by (auto simp: node_ids_removed)
    have r: "find_paths g (node # nodes) blacklist found
        = find_paths ?g nodes (blacklist @ ?path) (found @ [?path])"
      using False by (simp add: Let_def)
    let ?R = "find_paths ?g nodes (blacklist @ ?path) (found @ [?path])"
    from Cons.IH [OF 1 2 3 4 5]
    have d: "distinct (concat ?R)"
      and up: "set (concat ?R) \<subseteq> set (blacklist @ ?path) \<union> set (node_ids ?g)"
      and lo: "set (blacklist @ ?path) \<union> set nodes \<subseteq> set (concat ?R)"
      by blast+
    have "set (node_ids ?g) \<subseteq> set (node_ids g)" by (auto simp: node_ids_removed)
    with up pf(3) have up': "set (concat ?R) \<subseteq> set blacklist \<union> set (node_ids g)"
      by (simp only: set_append) blast
    from lo pf(2) have lo': "set blacklist \<union> set (node # nodes) \<subseteq> set (concat ?R)"
      by (simp only: set_append set_simps) blast
    from d up' lo' show ?thesis unfolding r by blast
  qed
qed

lemma find_paths_nonempty:
  "[] \<notin> set found \<Longrightarrow> [] \<notin> set (find_paths g nodes blacklist found)"
proof (induction nodes arbitrary: g blacklist found)
  case Nil
  then show ?case by simp
next
  case (Cons node nodes)
  have "pathfinder g node [] None \<noteq> []"
    using pathfinder_grows(1) [of "[]" node g None] by auto
  with Cons show ?case by (simp add: Let_def)
qed

lemma parent_paths_partition:
  assumes "wf_digraph subg" and "parent \<in> set (node_ids subg)"
  shows "distinct (concat (parent_paths subg parent))"
    and "set (concat (parent_paths subg parent)) = set (node_ids subg)"
proof -
  have "set ([parent] @ [x. x \<leftarrow> node_ids subg, x \<noteq> parent]) = set (node_ids subg)"
    using assms(2) by auto
  with find_paths_partition [of subg "[]" "[]" "[parent] @ [x. x \<leftarrow> node_ids subg, x \<noteq> parent]"]
    assms(1)
  show "distinct (concat (parent_paths subg parent))"
    and "set (concat (parent_paths subg parent)) = set (node_ids subg)"
    by (auto simp: parent_paths_def)
qed

lemma parent_paths_nonempty: "[] \<notin> set (parent_paths subg parent)"
  unfolding parent_paths_def by (rule find_paths_nonempty) simp

section \<open>Selecting a path configuration\<close>

lemma config_candidates:
  "[v. (k, v) \<leftarrow> paths, length v = m] = map snd (filter (\<lambda>q. length (snd q) = m) paths)"
  by (induction paths) auto

lemma config_lengths: "[length x. (k, x) \<leftarrow> paths] = map (\<lambda>q. length (snd q)) paths"
  by (induction paths) auto

lemma select_config_first_min:
  assumes "paths \<noteq> []"
  shows "\<exists>i<length paths. select_config paths = Inr (snd (paths ! i))
           \<and> (\<forall>q \<in> set paths. length (snd (paths ! i)) \<le> length (snd q))
           \<and> (\<forall>j<i. length (snd (paths ! i)) < length (snd (paths ! j)))"
proof -
  define m where "m = min_list (map (\<lambda>q. length (snd q)) paths)"
  from assms have mM: "m = Min (set (map (\<lambda>q. length (snd q)) paths))"
    unfolding m_def by (simp add: min_list_Min)
  from assms have "m \<in> set (map (\<lambda>q. length (snd q)) paths)"
    unfolding mM by (intro Min_in) simp_all
  then obtain q0 where "q0 \<in> set paths" and "length (snd q0) = m" by auto
  then have "filter (\<lambda>q. length (snd q) = m) paths \<noteq> []"
    by (auto simp: filter_empty_conv)
  then obtain x xs where f: "filter (\<lambda>q. length (snd q) = m) paths = x # xs"
    by (cases "filter (\<lambda>q. length (snd q) = m) paths") auto
  then obtain us vs where split: "paths = us @ x # vs"
    and before: "\<forall>u \<in> set us. length (snd u) \<noteq> m" and x: "length (snd x) = m"
    unfolding filter_eq_Cons_iff by blast
  have least: "m \<le> length (snd q)" if "q \<in> set paths" for q
    unfolding mM using that by (intro Min_le) auto
  have sel: "select_config paths = Inr (snd x)"
    using assms f by (simp add: select_config_def config_candidates config_lengths m_def)
  have i: "length us < length paths" and nth: "paths ! length us = x"
    unfolding split by simp_all
  have earlier: "length (snd x) < length (snd (paths ! j))" if "j < length us" for j
  proof -
    from that have "paths ! j = us ! j" and "us ! j \<in> set us"
      unfolding split by (simp_all add: nth_append)
    with before have "length (snd (paths ! j)) \<noteq> m" by auto
    moreover have "m \<le> length (snd (paths ! j))"
      using that i by (intro least) simp
    ultimately show ?thesis using x by simp
  qed
  show ?thesis
  proof (intro exI conjI)
    show "length us < length paths" by (rule i)
    show "select_config paths = Inr (snd (paths ! length us))" unfolding nth by (rule sel)
    show "\<forall>q \<in> set paths. length (snd (paths ! length us)) \<le> length (snd q)"
      unfolding nth x using least by blast
    show "\<forall>j<length us. length (snd (paths ! length us)) < length (snd (paths ! j))"
      unfolding nth using earlier by blast
  qed
qed


lemma effective_parents_nodes:
  "set (effective_parents subg) \<subseteq> set (node_ids subg)"
  "node_ids subg \<noteq> [] \<Longrightarrow> effective_parents subg \<noteq> []"
  by (auto simp: effective_parents_def find_parents_def)

lemma all_paths_nth:
  "length (all_paths subg) = length (effective_parents subg)"
  "i < length (effective_parents subg) \<Longrightarrow>
     snd (all_paths subg ! i) = parent_paths subg (effective_parents subg ! i)"
  "snd ` set (all_paths subg) = parent_paths subg ` set (effective_parents subg)"
  by (auto simp: all_paths_def image_iff)

lemma path_features_result:
  assumes "[] \<notin> set path_config"
  shows "path_features subg (initial_features subg) path_config =
     Inr (if find_parents subg = []
          then replicate (length path_config) (sorted_list_of_set (union_features subg))
          else [sorted_list_of_set (node_ft subg (hd x)). x \<leftarrow> path_config])"
proof -
  have "concat (replicate n [u]) = replicate n u" for n and u :: "feature list"
    by (induction n) auto
  moreover from assms have "\<not> list_ex (\<lambda>x. x = []) path_config"
    by (auto simp: list_ex_iff)
  ultimately show ?thesis
    by (simp add: path_features_def initial_features_def)
qed

lemma solve_subgraph_result:
  assumes "node_ids subg \<noteq> []"
  shows "\<exists>i<length (effective_parents subg).
      solve_subgraph subg =
        Inr (parent_paths subg (effective_parents subg ! i),
             if find_parents subg = []
             then replicate (length (parent_paths subg (effective_parents subg ! i)))
                    (sorted_list_of_set (union_features subg))
             else [sorted_list_of_set (node_ft subg (hd x)).
                     x \<leftarrow> parent_paths subg (effective_parents subg ! i)])
      \<and> (\<forall>parent \<in> set (effective_parents subg).
            length (parent_paths subg (effective_parents subg ! i))
              \<le> length (parent_paths subg parent))
      \<and> (\<forall>j<i. length (parent_paths subg (effective_parents subg ! i))
                 < length (parent_paths subg (effective_parents subg ! j)))"
proof -
  let ?ep = "effective_parents subg"
  from assms have "all_paths subg \<noteq> []"
    using effective_parents_nodes(2) [of subg] all_paths_nth(1) [of subg] by auto
  from select_config_first_min [OF this] obtain i where i: "i < length ?ep"
    and sel: "select_config (all_paths subg) = Inr (snd (all_paths subg ! i))"
    and least: "\<forall>q \<in> set (all_paths subg). length (snd (all_paths subg ! i)) \<le> length (snd q)"
    and first: "\<forall>j<i. length (snd (all_paths subg ! i)) < length (snd (all_paths subg ! j))"
    unfolding all_paths_nth(1) by blast
  let ?pc = "parent_paths subg (?ep ! i)"
  have pc: "snd (all_paths subg ! i) = ?pc" by (rule all_paths_nth(2) [OF i])
  have 1: "solve_subgraph subg =
        Inr (?pc, if find_parents subg = []
             then replicate (length ?pc) (sorted_list_of_set (union_features subg))
             else [sorted_list_of_set (node_ft subg (hd x)). x \<leftarrow> ?pc])"
    unfolding solve_subgraph_def sel pc
    by (simp add: path_features_result [OF parent_paths_nonempty])
  have 2: "length ?pc \<le> length (parent_paths subg parent)" if "parent \<in> set ?ep" for parent
  proof -
    from that have "parent_paths subg parent \<in> snd ` set (all_paths subg)"
      unfolding all_paths_nth(3) by blast
    with least show ?thesis unfolding pc by auto
  qed
  have 3: "length ?pc < length (parent_paths subg (?ep ! j))" if "j < i" for j
  proof -
    from that i have "snd (all_paths subg ! j) = parent_paths subg (?ep ! j)"
      by (intro all_paths_nth(2)) simp
    with first that show ?thesis unfolding pc by auto
  qed
  from i 1 2 3 show ?thesis by blast
qed

section \<open>The selected path configuration\<close>

lemma concat_unique_index:
  "distinct (concat xss) \<Longrightarrow> i < length xss \<Longrightarrow> j < length xss \<Longrightarrow>
     n \<in> set (xss ! i) \<Longrightarrow> n \<in> set (xss ! j) \<Longrightarrow> i = j"
proof (induction xss arbitrary: i j)
  case Nil
  then show ?case by simp
next
  case (Cons xs xss)
  have tail: "n \<in> set (concat xss)" if "k < length xss" and "n \<in> set (xss ! k)" for k
    using that by (auto intro: nth_mem)
  show ?case
  proof (cases i)
    case 0
    show ?thesis
    proof (cases j)
      case 0
      with \<open>i = 0\<close> show ?thesis by simp
    next
      case (Suc j')
      with Cons.prems \<open>i = 0\<close> tail [of j'] show ?thesis by auto
    qed
  next
    case (Suc i')
    show ?thesis
    proof (cases j)
      case 0
      with Cons.prems Suc tail [of i'] show ?thesis by auto
    next
      case (Suc j')
      with Cons.prems \<open>i = Suc i'\<close> Cons.IH [of i' j'] show ?thesis by auto
    qed
  qed
qed

lemma partition_index:
  assumes "distinct (concat xss)" and "n \<in> set (concat xss)"
  shows "\<exists>!i. i < length xss \<and> n \<in> set (xss ! i)"
proof -
  from assms(2) obtain xs where "xs \<in> set xss" and "n \<in> set xs" by auto
  then obtain i where "i < length xss" and "n \<in> set (xss ! i)"
    by (auto simp: in_set_conv_nth)
  with concat_unique_index [OF assms(1)] show ?thesis by blast
qed

lemma selected_from_parent:
  assumes "node_ids subg \<noteq> []"
  shows "\<exists>parent \<in> set (node_ids subg). \<exists>features.
           solve_subgraph subg = Inr (parent_paths subg parent, features)"
proof -
  from solve_subgraph_result [OF assms] obtain i features
    where i: "i < length (effective_parents subg)"
      and s: "solve_subgraph subg = Inr (parent_paths subg (effective_parents subg ! i), features)"
    by blast
  from i have "effective_parents subg ! i \<in> set (node_ids subg)"
    using effective_parents_nodes(1) [of subg] nth_mem by blast
  with s show ?thesis by blast
qed

text \<open>
  Claim C2. For every subgraph (a graph whose nodes are distinct and whose edges join
  its nodes, with at least one node), the selected path configuration partitions the
  nodes: the paths are not empty, no node occurs twice in them, they cover exactly the
  nodes of the subgraph, and every node lies on exactly one path. This holds for every
  shape of the subgraph, a pair of nodes joined in both directions included.
\<close>

theorem path_config_partition:
  assumes "wf_digraph subg" and "node_ids subg \<noteq> []"
  shows "\<exists>path_config features. solve_subgraph subg = Inr (path_config, features)
      \<and> distinct (concat path_config)
      \<and> set (concat path_config) = set (node_ids subg)
      \<and> [] \<notin> set path_config
      \<and> (\<forall>n \<in> set (node_ids subg). \<exists>!i. i < length path_config \<and> n \<in> set (path_config ! i))"
proof -
  from selected_from_parent [OF assms(2)] obtain parent features
    where p: "parent \<in> set (node_ids subg)"
      and s: "solve_subgraph subg = Inr (parent_paths subg parent, features)"
    by blast
  let ?pc = "parent_paths subg parent"
  note part = parent_paths_partition [OF assms(1) p]
  have "\<exists>!k. k < length ?pc \<and> n \<in> set (?pc ! k)" if "n \<in> set (node_ids subg)" for n
    using that part by (intro partition_index) simp_all
  with s part parent_paths_nonempty [of subg parent] show ?thesis
    by blast
qed

lemma pair2_solved: "solve_subgraph pair2 = Inr ([[0, 1]], [[1, 2]])"
  by code_simp

theorem path_config_partition_witness:
  "wf_digraph pair2 \<and> node_ids pair2 \<noteq> [] \<and> find_parents pair2 = []
   \<and> solve_subgraph pair2 = Inr ([[0, 1]], [[1, 2]])
   \<and> set (concat [[0, 1]]) = set (node_ids pair2)"
proof -
  have w: "wf_digraph pair2" by code_simp
  have n: "node_ids pair2 \<noteq> []" by code_simp
  have p: "find_parents pair2 = []" by code_simp
  from path_config_partition [OF w n] w n p show ?thesis
    unfolding pair2_solved by simp
qed

text \<open>
  Claim C3. The selected path configuration is the one found from some parent; it
  has at most as many paths as the configuration found from any parent of the
  subgraph, and strictly fewer than the configuration of every parent that comes
  before its own in the order of the parents (the first minimal one is taken).
\<close>

theorem selected_config_minimal:
  assumes "node_ids subg \<noteq> []"
  shows "\<exists>path_config features i. solve_subgraph subg = Inr (path_config, features)
      \<and> i < length (effective_parents subg)
      \<and> path_config = parent_paths subg (effective_parents subg ! i)
      \<and> (\<forall>parent \<in> set (effective_parents subg).
            length path_config \<le> length (parent_paths subg parent))
      \<and> (\<forall>j<i. length path_config < length (parent_paths subg (effective_parents subg ! j)))"
  using solve_subgraph_result [OF assms] by blast

lemma ring3_paths:
  "all_paths ring3 = [(0, [[0, 1], [2]]), (1, [[1, 0, 2]]), (2, [[2, 1], [0]])]"
  by code_simp

lemma ring3_solved: "solve_subgraph ring3 = Inr ([[1, 0, 2]], [[1, 2]])"
  by code_simp

theorem selected_config_minimal_witness:
  "node_ids ring3 \<noteq> []
   \<and> all_paths ring3 = [(0, [[0, 1], [2]]), (1, [[1, 0, 2]]), (2, [[2, 1], [0]])]
   \<and> solve_subgraph ring3 = Inr ([[1, 0, 2]], [[1, 2]])"
proof -
  have n: "node_ids ring3 \<noteq> []" by code_simp
  from selected_config_minimal [OF n] n ring3_paths ring3_solved show ?thesis by simp
qed

lemma foldr_union: "foldr (\<union>) xs {} = \<Union> (set xs)"
  by (induction xs) auto

text \<open>
  Claim C6. In a subgraph in which every node has an incoming edge, every node is
  used as a parent, and every path of the selected configuration is given the same
  feature list: that of the union of the feature sets of all nodes of the subgraph,
  whatever nodes the path holds.
\<close>

theorem no_parent_union_features:
  assumes "node_ids subg \<noteq> []" and "find_parents subg = []"
  shows "effective_parents subg = node_ids subg
      \<and> (\<exists>path_config. solve_subgraph subg =
            Inr (path_config,
                 replicate (length path_config) (sorted_list_of_set (union_features subg))))
      \<and> union_features subg = (\<Union>n \<in> set (node_ids subg). node_ft subg n)
      \<and> (finite (union_features subg) \<longrightarrow>
            set (sorted_list_of_set (union_features subg)) = union_features subg)"
proof -
  have 1: "effective_parents subg = node_ids subg"
    using assms(2) by (simp add: effective_parents_def)
  have 2: "\<exists>path_config. solve_subgraph subg =
            Inr (path_config,
                 replicate (length path_config) (sorted_list_of_set (union_features subg)))"
    using solve_subgraph_result [OF assms(1)] assms(2) by auto
  have 3: "union_features subg = (\<Union>n \<in> set (node_ids subg). node_ft subg n)"
    by (simp add: union_features_def foldr_union)
  from 1 2 3 show ?thesis by simp
qed

lemma line4_solved:
  "solve_subgraph line4 = Inr ([[0, 1], [2, 3]], [[1, 2, 3], [1, 2, 3]])"
  by code_simp

theorem no_parent_union_features_witness:
  "node_ids line4 \<noteq> [] \<and> find_parents line4 = []
   \<and> effective_parents line4 = [0, 1, 2, 3]
   \<and> solve_subgraph line4 = Inr ([[0, 1], [2, 3]], [[1, 2, 3], [1, 2, 3]])
   \<and> node_ft line4 0 \<union> node_ft line4 1 = {1, 2}"
proof -
  have n: "node_ids line4 \<noteq> []" by code_simp
  have p: "find_parents line4 = []" by code_simp
  have e: "effective_parents line4 = [0, 1, 2, 3]" by code_simp
  have f: "node_ft line4 0 \<union> node_ft line4 1 = {1, 2}" by code_simp
  from no_parent_union_features [OF n p] n p e f line4_solved show ?thesis by simp
qed

section \<open>The subgraphs of a cell\<close>

lemma wf_build_graph: "wf_digraph (build_graph ecs)"
  unfolding wf_digraph_def node_ids_build
  by (auto simp: list_all_iff set_gedges_build)

lemma gnodes_subgraph: "set (gnodes (subgraph set_order g ns)) \<subseteq> set (gnodes g)"
proof (cases "2 * length (remdups ns) < length (gnodes g)")
  case True
  then have "gnodes (subgraph set_order g ns)
      = [(n, p). n \<leftarrow> set_order ns, (n', p) \<leftarrow> gnodes g, n' = n]"
    by (simp add: subgraph_def)
  then show ?thesis by auto
next
  case False
  then have "gnodes (subgraph set_order g ns) = [(n, p) \<leftarrow> gnodes g. n \<in> set ns]"
    by (simp add: subgraph_def)
  then show ?thesis by auto
qed

lemma pick_node:
  "distinct (map fst xs) \<Longrightarrow>
     map fst [(n, p). (n', p) \<leftarrow> xs, n' = n] = (if n \<in> set (map fst xs) then [n] else [])"
  for xs :: "(node \<times> payload) list"
  by (induction xs) (auto simp: image_iff)

lemma pick_nodes:
  "distinct (map fst xs) \<Longrightarrow>
     map fst [(n, p). n \<leftarrow> order, (n', p) \<leftarrow> xs, n' = n] = [n \<leftarrow> order. n \<in> set (map fst xs)]"
  for xs :: "(node \<times> payload) list"
proof (induction order)
  case Nil
  then show ?case by simp
next
  case (Cons n order)
  from pick_node [OF Cons.prems, of n] Cons.IH [OF Cons.prems] show ?case by simp
qed

lemma keep_nodes:
  "map fst [(n, p) \<leftarrow> xs. n \<in> set ns] = [n \<leftarrow> map fst xs. n \<in> set ns]"
  for xs :: "(node \<times> payload) list"
  by (induction xs) auto

lemma node_ids_subgraph_eq:
  assumes "distinct (node_ids g)"
  shows "node_ids (subgraph set_order g ns) =
     (if 2 * length (remdups ns) < length (gnodes g)
      then [n \<leftarrow> set_order ns. n \<in> set (node_ids g)]
      else [n \<leftarrow> node_ids g. n \<in> set ns])"
proof -
  from assms have d: "distinct (map fst (gnodes g))" by (simp add: node_ids_def)
  show ?thesis
  proof (cases "2 * length (remdups ns) < length (gnodes g)")
    case True
    then have "gnodes (subgraph set_order g ns)
        = [(n, p). n \<leftarrow> set_order ns, (n', p) \<leftarrow> gnodes g, n' = n]"
      by (simp add: subgraph_def)
    then have "node_ids (subgraph set_order g ns) = [n \<leftarrow> set_order ns. n \<in> set (map fst (gnodes g))]"
      unfolding node_ids_def by (simp only: pick_nodes [OF d])
    with True show ?thesis by (simp add: node_ids_def)
  next
    case False
    then have "gnodes (subgraph set_order g ns) = [(n, p) \<leftarrow> gnodes g. n \<in> set ns]"
      by (simp add: subgraph_def)
    then have "node_ids (subgraph set_order g ns) = [n \<leftarrow> map fst (gnodes g). n \<in> set ns]"
      unfolding node_ids_def by (simp only: keep_nodes)
    with False show ?thesis by (simp add: node_ids_def)
  qed
qed

lemma node_ids_subgraph:
  assumes "lists_each_once set_order" and "distinct (node_ids g)"
  shows "distinct (node_ids (subgraph set_order g ns))"
    and "set (node_ids (subgraph set_order g ns)) = set (node_ids g) \<inter> set ns"
proof -
  from assms(1) have o: "distinct (set_order ns)" "set (set_order ns) = set ns"
    by (simp_all add: lists_each_once_def)
  show "distinct (node_ids (subgraph set_order g ns))"
    unfolding node_ids_subgraph_eq [OF assms(2)] using o(1) assms(2) by simp
  show "set (node_ids (subgraph set_order g ns)) = set (node_ids g) \<inter> set ns"
    unfolding node_ids_subgraph_eq [OF assms(2)] using o(2) by auto
qed

lemma gedges_subgraph:
  "gedges (subgraph set_order g ns) = [(u, v) \<leftarrow> gedges g. u \<in> set ns \<and> v \<in> set ns]"
  by (simp add: subgraph_def)

lemma wf_subgraph:
  assumes "lists_each_once set_order" and "wf_digraph g"
  shows "wf_digraph (subgraph set_order g ns)"
proof -
  from assms(2) have d: "distinct (node_ids g)" by (simp add: wf_digraph_def)
  note n = node_ids_subgraph [OF assms(1) d, of ns]
  have "u \<in> set (node_ids g) \<inter> set ns \<and> v \<in> set (node_ids g) \<inter> set ns"
    if "(u, v) \<in> set (gedges (subgraph set_order g ns))" for u v
    using that wf_digraph_edges [OF assms(2), of u v] unfolding gedges_subgraph by auto
  with n show ?thesis unfolding wf_digraph_def list_all_iff by blast
qed

lemma grow_keeps: "v \<in> set seen \<Longrightarrow> v \<in> set (node_ids g) \<Longrightarrow> v \<in> set (grow g seen)"
  by (simp add: grow_def)

lemma component_start: "v \<in> set (node_ids g) \<Longrightarrow> v \<in> set (component g v)"
proof -
  assume v: "v \<in> set (node_ids g)"
  have "v \<in> set ((grow g ^^ k) [v])" for k
    by (induction k) (simp_all add: grow_keeps v)
  then show ?thesis by (simp add: component_def)
qed

lemma components_from_start:
  "x \<in> set (components_from g vs seen) \<Longrightarrow> \<exists>v \<in> set vs. x = component g v"
  by (induction g vs seen rule: components_from.induct) (auto split: if_splits)

lemma cell_subgraphs_wf:
  assumes "lists_each_once set_order"
    and "subg \<in> set (subgraphs set_order (build_graph ecs))"
  shows "wf_digraph subg" and "node_ids subg \<noteq> []"
    and "set (gnodes subg) \<subseteq> set (gnodes (build_graph ecs))"
proof -
  from assms(2) obtain x where x: "x \<in> set (connected_components (build_graph ecs))"
    and subg: "subg = subgraph set_order (build_graph ecs) x"
    by (auto simp: subgraphs_def)
  from x obtain v where v: "v \<in> set (node_ids (build_graph ecs))"
    and c: "x = component (build_graph ecs) v"
    unfolding connected_components_def by (blast dest: components_from_start)
  have d: "distinct (node_ids (build_graph ecs))" by (simp add: node_ids_build)
  show "wf_digraph subg" unfolding subg by (rule wf_subgraph [OF assms(1) wf_build_graph])
  from component_start [OF v] v have "v \<in> set (node_ids subg)"
    unfolding subg c node_ids_subgraph(2) [OF assms(1) d] by simp
  then show "node_ids subg \<noteq> []" by auto
  show "set (gnodes subg) \<subseteq> set (gnodes (build_graph ecs))"
    unfolding subg by (rule gnodes_subgraph)
qed

text \<open>
  Property X1. Every subgraph that per-cell counting makes of the graph of a cell's
  equivalence classes has a selected path configuration, and that configuration
  partitions the nodes of the subgraph, in whatever order Python lists the nodes of
  a component.
\<close>

theorem cell_path_configs_partition:
  assumes "lists_each_once set_order"
    and "subg \<in> set (subgraphs set_order (build_graph equivalence_classes))"
  shows "\<exists>path_config features. solve_subgraph subg = Inr (path_config, features)
      \<and> distinct (concat path_config)
      \<and> set (concat path_config) = set (node_ids subg)
      \<and> [] \<notin> set path_config"
proof -
  note wf = cell_subgraphs_wf [OF assms]
  from selected_from_parent [OF wf(2)] obtain parent features
    where p: "parent \<in> set (node_ids subg)"
      and s: "solve_subgraph subg = Inr (parent_paths subg parent, features)"
    by blast
  from s parent_paths_partition [OF wf(1) p] parent_paths_nonempty [of subg parent]
  show ?thesis by blast
qed

lemma identity_lists_each_once: "lists_each_once (\<lambda>nodes. remdups nodes)"
  by (simp add: lists_each_once_def)

lemma pair2_of_cell:
  "subgraphs (\<lambda>nodes. remdups nodes) (build_graph [(''AAA'', {1}, 1), (''AAT'', {1, 2}, 1)])
     = [pair2]"
  by code_simp

theorem cell_path_configs_partition_witness:
  "lists_each_once (\<lambda>nodes. remdups nodes)
   \<and> pair2 \<in> set (subgraphs (\<lambda>nodes. remdups nodes)
        (build_graph [(''AAA'', {1}, 1), (''AAT'', {1, 2}, 1)]))
   \<and> solve_subgraph pair2 = Inr ([[0, 1]], [[1, 2]])"
proof -
  have h: "pair2 \<in> set (subgraphs (\<lambda>nodes. remdups nodes)
      (build_graph [(''AAA'', {1}, 1), (''AAT'', {1, 2}, 1)]))"
    unfolding pair2_of_cell by simp
  from cell_path_configs_partition [OF identity_lists_each_once h] h pair2_solved
    identity_lists_each_once
  show ?thesis by simp
qed

text \<open>
  Property X2. The two end-to-end examples of the specification. The classes
  \<open>("AAAAA", {1}, 5)\<close> and \<open>("AAAAT", {1, 2}, 2)\<close> are connected from the first to the
  second and give one count for feature 1 and nothing for EM. Two classes whose UMIs
  differ in more than one position are not merged: each gives its own count.
\<close>

theorem spec_examples:
  "resolve_cell (\<lambda>nodes. remdups nodes) 2 [(''AAAAA'', {1}, 5), (''AAAAT'', {1, 2}, 2)]
     = Inr \<lparr>counts = [(1, 1)], em_array = []\<rparr>
   \<and> resolve_cell (\<lambda>nodes. remdups nodes) 2 [(''AAAAA'', {2}, 1), (''CCCCC'', {2}, 1)]
     = Inr \<lparr>counts = [(2, 2)], em_array = []\<rparr>"
  by code_simp

section \<open>Paths without features\<close>
















end
